theory Spec2Isabelle
  imports
    Main
    "HOL-Library.FSet"
    "HOL-Library.Char_ord"
    "HOL-Library.List_Lexorder"
    "HOL-Library.Sublist"
begin

section \<open>Data model\<close>

text \<open>
  The exceptions that the modelled methods of \<^verbatim>\<open>HConfig\<close> can raise. Every raise of the
  source is a value \<open>Inl e\<close> of the result type \<open>error + 'a\<close>.
\<close>

datatype error =
    AssertionError
  | KeyError string
  | AttributeError
  | StopIteration
  | ValueError

text \<open>
  One configuration line. \<^verbatim>\<open>HConfig\<close> (the root) and its children share the fields that
  the code of \<^verbatim>\<open>hier_config/__init__.py\<close> reads and writes: \<^verbatim>\<open>text\<close>, \<^verbatim>\<open>tags\<close>,
  \<^verbatim>\<open>comments\<close>, \<^verbatim>\<open>new_in_config\<close>, \<^verbatim>\<open>order_weight\<close>, \<^verbatim>\<open>real_indent_level\<close> (an attribute
  that exists only once the parser has set it) and the ordered list \<^verbatim>\<open>children\<close>.
  The root is a node whose payload fields are never read.
\<close>

datatype node =
  Node (node_text: string) (tags: "string fset") (comments: "string fset")
       (new_in_config: bool) (order_weight: int) (real_indent_level: "int option")
       (children: "node list")

text \<open>
  A Python reference to a node of the tree under a root is the list of child positions
  that leads from the root to it; the root itself is \<open>[]\<close>.
\<close>

type_synonym path = "nat list"

text \<open>
  Modelled from the spec: the node primitive of \<^verbatim>\<open>hier_config/base.py\<close> is not part of
  the sources; section 3 gives \<^verbatim>\<open>order_weight\<close> a fixed mid-range default (500), and a new node
  has no tags, no comments and no children.
\<close>

definition default_order_weight :: int where
  "default_order_weight = 500"

definition new_node :: "string \<Rightarrow> node" where
  "new_node txt = Node txt {||} {||} False default_order_weight None []"

definition empty_root :: node where
  "empty_root = Node [] {||} {||} False default_order_weight None []"

fun get :: "node \<Rightarrow> path \<Rightarrow> node option" where
  "get n [] = Some n"
| "get n (i # p) = (if i < length (children n) then get (children n ! i) p else None)"

definition set_children :: "node list \<Rightarrow> node \<Rightarrow> node" where
  "set_children cs n =
     Node (node_text n) (tags n) (comments n) (new_in_config n) (order_weight n)
          (real_indent_level n) cs"

fun modify :: "(node \<Rightarrow> node) \<Rightarrow> path \<Rightarrow> node \<Rightarrow> node" where
  "modify f [] n = f n"
| "modify f (i # p) n =
     (if i < length (children n)
      then set_children ((children n)[i := modify f p (children n ! i)]) n
      else n)"

definition children_of :: "node \<Rightarrow> path \<Rightarrow> node list" where
  "children_of root p = (case get root p of Some n \<Rightarrow> children n | None \<Rightarrow> [])"

text \<open>
  Modelled from the spec: \<^verbatim>\<open>depth()\<close> of a child (sections 6 and 3: depth(node) = 1 + depth(parent));
  \<^verbatim>\<open>HConfig.depth\<close> of the source returns 0 for the root.
\<close>

definition depth :: "path \<Rightarrow> int" where
  "depth p = int (length p)"

text \<open>
  Modelled from the spec: \<^verbatim>\<open>parent\<close> (section 3: exactly one parent per non-root node; the root
  has none, so reading it there raises).
\<close>

definition parent :: "path \<Rightarrow> error + path" where
  "parent p = (if p = [] then Inl AttributeError else Inr (butlast p))"

text \<open>
  Modelled from the spec: \<^verbatim>\<open>lineage()\<close>, the ancestor chain below the root, outermost
  first, ending with the node itself (section 3: the ancestor chain, outermost first, plus the
  node itself). The call sites of the source fix the same convention: \<^verbatim>\<open>load_from_dump\<close>
  takes element \<^verbatim>\<open>depth - 2\<close> as the ancestor of depth \<^verbatim>\<open>depth - 1\<close>, and
  \<^verbatim>\<open>add_ancestor_copy_of\<close> returns the copy of the last element as the copy of the node.
\<close>

definition lineage :: "path \<Rightarrow> path list" where
  "lineage p = map (\<lambda>k. take k p) [1..<Suc (length p)]"

text \<open>
  Modelled from the spec: \<^verbatim>\<open>add_child(text, force_duplicate)\<close> (section 6: create-child; section 4.8:
  with \<^verbatim>\<open>force_duplicate\<close> a new child is always created, never coalesced with an
  existing sibling of the same text). The result is the new tree and the reference to
  the child.
\<close>

definition append_child :: "node \<Rightarrow> node \<Rightarrow> node" where
  "append_child c n = set_children (children n @ [c]) n"

fun find_text :: "string \<Rightarrow> node list \<Rightarrow> nat option" where
  "find_text txt [] = None"
| "find_text txt (c # cs) =
     (if node_text c = txt then Some 0 else map_option Suc (find_text txt cs))"

definition add_child :: "node \<Rightarrow> path \<Rightarrow> string \<Rightarrow> bool \<Rightarrow> node \<times> path" where
  "add_child root p txt force_duplicate =
     (case (if force_duplicate then None else find_text txt (children_of root p)) of
        Some i \<Rightarrow> (root, p @ [i])
      | None \<Rightarrow> (modify (append_child (new_node txt)) p root,
                 p @ [length (children_of root p)]))"

section \<open>Strings\<close>

text \<open>
  Python's \<^verbatim>\<open>str\<close> methods used by the parser. A character is a code point below 256.
  \<^verbatim>\<open>str.split()\<close>, \<^verbatim>\<open>lstrip()\<close> and \<^verbatim>\<open>rstrip()\<close> treat as whitespace the code points
  9-13, 28-32, 133 and 160; \<^verbatim>\<open>splitlines()\<close> breaks a line at 10-13, 28-30 and 133,
  with carriage return followed by line feed as one break.
\<close>

definition is_space :: "char \<Rightarrow> bool" where
  "is_space c \<longleftrightarrow>
     c \<in> set [CHR 0x09, CHR 0x0A, CHR 0x0B, CHR 0x0C, CHR 0x0D, CHR 0x1C, CHR 0x1D,
               CHR 0x1E, CHR 0x1F, CHR 0x20, CHR 0x85, CHR 0xA0]"

definition is_linebreak :: "char \<Rightarrow> bool" where
  "is_linebreak c \<longleftrightarrow>
     c \<in> set [CHR 0x0A, CHR 0x0B, CHR 0x0C, CHR 0x0D, CHR 0x1C, CHR 0x1D, CHR 0x1E,
               CHR 0x85]"

fun splitlines_from :: "string \<Rightarrow> string \<Rightarrow> string list" where
  "splitlines_from cur [] = (if cur = [] then [] else [cur])"
| "splitlines_from cur [c] =
     (if is_linebreak c then [cur] else [cur @ [c]])"
| "splitlines_from cur (c # d # cs) =
     (if c = CHR 0x0D \<and> d = CHR 0x0A then cur # splitlines_from [] cs
      else if is_linebreak c then cur # splitlines_from [] (d # cs)
      else splitlines_from (cur @ [c]) (d # cs))"

definition splitlines :: "string \<Rightarrow> string list" where
  "splitlines s = splitlines_from [] s"

fun split_from :: "string \<Rightarrow> string \<Rightarrow> string list" where
  "split_from cur [] = (if cur = [] then [] else [cur])"
| "split_from cur (c # cs) =
     (if is_space c then (if cur = [] then split_from [] cs else cur # split_from [] cs)
      else split_from (cur @ [c]) cs)"

definition split :: "string \<Rightarrow> string list" where
  "split s = split_from [] s"

definition lstrip :: "string \<Rightarrow> string" where
  "lstrip s = dropWhile is_space s"

definition rstrip :: "string \<Rightarrow> string" where
  "rstrip s = rev (dropWhile is_space (rev s))"

fun join :: "string \<Rightarrow> string list \<Rightarrow> string" where
  "join sep [] = []"
| "join sep [x] = x"
| "join sep (x # y # ys) = x @ sep @ join sep (y # ys)"

definition startswith :: "string \<Rightarrow> string \<Rightarrow> bool" where
  "startswith s pre = prefix pre s"

text \<open>\<^verbatim>\<open>sub in s\<close> on strings.\<close>

fun contains :: "string \<Rightarrow> string \<Rightarrow> bool" where
  "contains [] sub = (sub = [])"
| "contains (c # cs) sub = (prefix sub (c # cs) \<or> contains cs sub)"

section \<open>Options and rules\<close>

text \<open>
  Python's \<^verbatim>\<open>re\<close> module is not part of the repository: \<^verbatim>\<open>re.sub(pattern, repl, s)\<close> and
  \<^verbatim>\<open>re.search(pattern, s)\<close> are parameters of the model, for patterns that compile.
\<close>

record regex =
  re_sub :: "string \<Rightarrow> string \<Rightarrow> string \<Rightarrow> string"
  re_search :: "string \<Rightarrow> string \<Rightarrow> bool"

record sub_rule =
  search :: string
  replace :: string

record indent_rule =
  start_expression :: string
  end_expression :: string

text \<open>
  Modelled from the spec: a lineage rule (section 3) is an ordered list of per-level match
  specifiers, each with a match kind among equals, startswith, endswith, contains and
  regex, possibly negated.
\<close>

datatype match_kind = Equals | Startswith | Endswith | Contains | Regex

record specifier =
  kind :: match_kind
  negated :: bool
  expression :: string

type_synonym lineage_rule = "specifier list"

record order_rule =
  order_lineage :: lineage_rule
  order :: int

record exit_rule =
  exit_lineage :: lineage_rule
  exit_text :: string

text \<open>
  \<^verbatim>\<open>self.options\<close>: a dictionary with five keys; a key that is absent is \<open>None\<close>, and
  \<^verbatim>\<open>self.options[key]\<close> raises \<^verbatim>\<open>KeyError\<close> there.
\<close>

record options =
  full_text_sub :: "sub_rule list option"
  per_line_sub :: "sub_rule list option"
  indent_adjust :: "indent_rule list option"
  ordering :: "order_rule list option"
  sectional_exiting :: "exit_rule list option"

definition empty_options :: options where
  "empty_options =
     \<lparr> full_text_sub = Some [], per_line_sub = Some [], indent_adjust = Some [],
       ordering = Some [], sectional_exiting = Some [] \<rparr>"

section \<open>Text parser\<close>

text \<open>The local variables of \<^verbatim>\<open>load_from_string\<close>, with the tree under \<^verbatim>\<open>self\<close>.\<close>

record pstate =
  tree :: node
  current_section :: path
  most_recent_item :: path
  cur_indent_adjust :: int
  end_indent_adjust :: "string list"
  temp_banner :: "string list"
  in_banner :: bool
  banner_end_lines :: "string list"
  banner_end_contains :: "string list"

definition set_real_indent_level :: "int \<Rightarrow> node \<Rightarrow> node" where
  "set_real_indent_level i n =
     Node (node_text n) (tags n) (comments n) (new_in_config n) (order_weight n) (Some i)
          (children n)"

text \<open>Reading \<^verbatim>\<open>real_indent_level\<close> through a reference.\<close>

definition ril :: "node \<Rightarrow> path \<Rightarrow> int option" where
  "ril t p = (case get t p of Some n \<Rightarrow> real_indent_level n | None \<Rightarrow> None)"

definition init_state :: "node \<Rightarrow> pstate" where
  "init_state self =
     \<lparr> tree = modify (set_real_indent_level (- 1)) [] self,
       current_section = [], most_recent_item = [],
       cur_indent_adjust = 0, end_indent_adjust = [],
       temp_banner = [], in_banner = False,
       banner_end_lines = [''EOF'', ''%'', ''!''], banner_end_contains = [] \<rparr>"

definition end_of_banner_test :: "pstate \<Rightarrow> string \<Rightarrow> bool" where
  "end_of_banner_test st config_line =
     (if startswith config_line ''^'' then True
      else if config_line \<in> set (banner_end_lines st) then True
      else if \<exists>c \<in> set (banner_end_contains st). contains config_line c then True
      else False)"

text \<open>A line read while \<^verbatim>\<open>in_banner\<close> is set.\<close>

definition banner_line :: "pstate \<Rightarrow> string \<Rightarrow> pstate" where
  "banner_line st line =
     (let tb = (if line \<noteq> ''!'' then temp_banner st @ [line] else temp_banner st) in
      if end_of_banner_test st line
      then (case add_child (tree st) [] (join [CHR 0x0A] tb) True of
              (t, item) \<Rightarrow>
                st \<lparr> tree := modify (set_real_indent_level 0) item t,
                     most_recent_item := item, current_section := [],
                     temp_banner := [], in_banner := False \<rparr>)
      else st \<lparr> temp_banner := tb \<rparr>)"

text \<open>A line that starts a banner.\<close>

definition banner_start :: "pstate \<Rightarrow> string \<Rightarrow> pstate" where
  "banner_start st line =
     (let banner_words = split line;
          st1 = st \<lparr> in_banner := True, temp_banner := temp_banner st @ [line] \<rparr> in
      if 2 < length banner_words
      then st1 \<lparr> banner_end_contains := banner_end_contains st @ [banner_words ! 2],
                 banner_end_lines := banner_end_lines st @
                   [take 1 (banner_words ! 2), take 2 (banner_words ! 2)] \<rparr>
      else st1)"

fun apply_subs :: "regex \<Rightarrow> sub_rule list \<Rightarrow> string \<Rightarrow> string" where
  "apply_subs re [] s = s"
| "apply_subs re (sub # subs) s = apply_subs re subs (re_sub re (search sub) (replace sub) s)"

text \<open>\<^verbatim>\<open>while this_indent <= current_section.real_indent_level\<close>: walks back up the tree.\<close>

function walk_up :: "node \<Rightarrow> int \<Rightarrow> path \<Rightarrow> error + path" where
  "walk_up t this_indent cs =
     (case ril t cs of
        None \<Rightarrow> Inl AttributeError
      | Some r \<Rightarrow>
          if this_indent \<le> r
          then (case parent cs of Inl e \<Rightarrow> Inl e | Inr p \<Rightarrow> walk_up t this_indent p)
          else Inr cs)"
  by pat_completeness auto
termination
  by (relation "measure (\<lambda>(t, i, cs). length cs)")
     (auto simp: parent_def split: if_splits)

declare walk_up.simps [simp del]

text \<open>The placement of a new line: up, then down by one step.\<close>

definition place :: "node \<Rightarrow> path \<Rightarrow> path \<Rightarrow> int \<Rightarrow> error + path" where
  "place t cs mri this_indent =
     (case walk_up t this_indent cs of
        Inl e \<Rightarrow> Inl e
      | Inr cs1 \<Rightarrow>
          (case ril t mri of
             None \<Rightarrow> Inl AttributeError
           | Some r \<Rightarrow> Inr (if this_indent > r then mri else cs1)))"

text \<open>The loop over \<^verbatim>\<open>options['indent_adjust']\<close> with its \<^verbatim>\<open>break\<close>.\<close>

fun first_start :: "regex \<Rightarrow> indent_rule list \<Rightarrow> string \<Rightarrow> string option" where
  "first_start re [] line = None"
| "first_start re (expr # rest) line =
     (if re_search re (start_expression expr) line
      then Some (end_expression expr)
      else first_start re rest line)"

definition adjust_indent :: "regex \<Rightarrow> indent_rule list \<Rightarrow> string \<Rightarrow> pstate \<Rightarrow> pstate" where
  "adjust_indent re exprs line st =
     (let st1 = (case first_start re exprs line of
                   Some e \<Rightarrow> st \<lparr> cur_indent_adjust := cur_indent_adjust st + 1,
                                 end_indent_adjust := end_indent_adjust st @ [e] \<rparr>
                 | None \<Rightarrow> st) in
      if end_indent_adjust st1 \<noteq> [] \<and> re_search re (hd (end_indent_adjust st1)) line
      then st1 \<lparr> cur_indent_adjust := cur_indent_adjust st1 - 1,
                 end_indent_adjust := tl (end_indent_adjust st1) \<rparr>
      else st1)"

text \<open>
  A line read in normal mode. A raise leaves \<^verbatim>\<open>self\<close> as it is at that moment: the
  error comes with that tree.
\<close>

definition normal_line ::
  "regex \<Rightarrow> options \<Rightarrow> pstate \<Rightarrow> string \<Rightarrow> (error \<times> node) + pstate" where
  "normal_line re opts st line0 =
     (let actual_indent = length line0 - length (lstrip line0);
          line1 = replicate actual_indent CHR '' '' @ join '' '' (split line0) in
      case per_line_sub opts of
        None \<Rightarrow> Inl (KeyError ''per_line_sub'', tree st)
      | Some subs \<Rightarrow>
          (let line2 = rstrip (apply_subs re subs line1) in
           if line2 = [] then Inr st
           else
             (let this_indent = int (length line2) - int (length (lstrip line2))
                                + cur_indent_adjust st;
                  line = lstrip line2 in
              case place (tree st) (current_section st) (most_recent_item st) this_indent of
                Inl e \<Rightarrow> Inl (e, tree st)
              | Inr sect \<Rightarrow>
                  (case add_child (tree st) sect line True of
                     (t, item) \<Rightarrow>
                       (let st1 = st \<lparr> tree := modify (set_real_indent_level this_indent) item t,
                                       current_section := sect,
                                       most_recent_item := item \<rparr> in
                        case indent_adjust opts of
                          None \<Rightarrow> Inl (KeyError ''indent_adjust'', tree st1)
                        | Some exprs \<Rightarrow> Inr (adjust_indent re exprs line st1))))))"

text \<open>The body of the loop over the lines.\<close>

definition process_line ::
  "regex \<Rightarrow> options \<Rightarrow> pstate \<Rightarrow> string \<Rightarrow> (error \<times> node) + pstate" where
  "process_line re opts st line =
     (if in_banner st then Inr (banner_line st line)
      else if startswith line ''banner '' then Inr (banner_start st line)
      else normal_line re opts st line)"

fun parse_lines ::
  "regex \<Rightarrow> options \<Rightarrow> pstate \<Rightarrow> string list \<Rightarrow> (error \<times> node) + pstate" where
  "parse_lines re opts st [] = Inr st"
| "parse_lines re opts st (line # lines) =
     (case process_line re opts st line of
        Inl e \<Rightarrow> Inl e
      | Inr st' \<Rightarrow> parse_lines re opts st' lines)"

definition load_from_string ::
  "regex \<Rightarrow> options \<Rightarrow> node \<Rightarrow> string \<Rightarrow> (error \<times> node) + node" where
  "load_from_string re opts self config_text =
     (case full_text_sub opts of
        None \<Rightarrow> Inl (KeyError ''full_text_sub'', self)
      | Some subs \<Rightarrow>
          (case parse_lines re opts (init_state self)
                  (splitlines (apply_subs re subs config_text)) of
             Inl e \<Rightarrow> Inl e
           | Inr st \<Rightarrow>
               if in_banner st then Inl (AssertionError, tree st) else Inr (tree st)))"

section \<open>Sorted traversal\<close>

text \<open>
  Modelled from the spec: \<^verbatim>\<open>all_children_sorted()\<close> (section 4.7: all nodes in a stable total
  order, by \<^verbatim>\<open>order_weight\<close> with ties in sibling insertion order, recursively
  pre-order). \<open>sort_key\<close> is a stable sort, as Python's \<^verbatim>\<open>sorted\<close> is.
\<close>

definition sorted_children :: "node list \<Rightarrow> (nat \<times> node) list" where
  "sorted_children cs = sort_key (\<lambda>ic. order_weight (snd ic)) (zip [0..<length cs] cs)"

function (sequential) all_children_sorted :: "node \<Rightarrow> path list" where
  "all_children_sorted (Node t tg cm nw ow rl cs) =
     concat (map (\<lambda>ic. [fst ic] # map ((#) (fst ic)) (all_children_sorted (snd ic)))
                 (sorted_children cs))"
  by pat_completeness auto
termination
proof (relation "measure size")
  show "wf (measure size)" by simp
next
  fix t tg cm nw ow rl cs and ic :: "nat \<times> node"
  assume "ic \<in> set (sorted_children cs)"
  then have "(fst ic, snd ic) \<in> set (zip [0..<length cs] cs)"
    by (simp add: sorted_children_def)
  then have "snd ic \<in> set cs"
    by (rule set_zip_rightD)
  then have "size (snd ic) < Suc (size_list size cs)"
    by (simp add: less_Suc_eq_le size_list_estimation')
  then show "(snd ic, Node t tg cm nw ow rl cs) \<in> measure size"
    by simp
qed

section \<open>Serializer\<close>

text \<open>
  One flat record of \<^verbatim>\<open>dump\<close>. \<^verbatim>\<open>list(child.tags)\<close> lists a Python set in an order the
  language leaves open: the listing is the parameter \<open>enum\<close> of \<^verbatim>\<open>dump\<close>, any function that
  lists the elements of a set (\<open>fset_of_list (enum S) = S\<close>).
\<close>

record dump_item =
  item_depth :: int
  item_text :: string
  item_tags :: "string list"
  item_comments :: "string list"
  item_new_in_config :: bool

definition node_item :: "(string fset \<Rightarrow> string list) \<Rightarrow> int \<Rightarrow> node \<Rightarrow> dump_item" where
  "node_item enum d n =
     \<lparr> item_depth = d, item_text = node_text n,
       item_tags = enum (tags n),
       item_comments = enum (comments n),
       item_new_in_config = new_in_config n \<rparr>"

text \<open>The record of the node a reference points to (a reference of the tree always does).\<close>

definition item_of :: "(string fset \<Rightarrow> string list) \<Rightarrow> node \<Rightarrow> path \<Rightarrow> dump_item" where
  "item_of enum root p =
     (case get root p of
        Some n \<Rightarrow> node_item enum (depth p) n
      | None \<Rightarrow> \<lparr> item_depth = depth p, item_text = [], item_tags = [],
                  item_comments = [], item_new_in_config = False \<rparr>)"

text \<open>\<^verbatim>\<open>dump(lineage_rules=None)\<close>: the unfiltered branch.\<close>

definition dump :: "(string fset \<Rightarrow> string list) \<Rightarrow> node \<Rightarrow> dump_item list" where
  "dump enum root = map (item_of enum root) (all_children_sorted root)"

text \<open>
  \<^verbatim>\<open>next(islice(it, start, stop))\<close>: a bound that is negative or above \<^verbatim>\<open>sys.maxsize\<close>
  (\<open>2 ^ 63 - 1\<close> on a 64-bit CPython) raises \<^verbatim>\<open>ValueError\<close>, an exhausted iterator
  \<^verbatim>\<open>StopIteration\<close>.
\<close>

definition sys_maxsize :: int where
  "sys_maxsize = 2 ^ 63 - 1"

definition next_islice :: "'a list \<Rightarrow> int \<Rightarrow> int \<Rightarrow> error + 'a" where
  "next_islice xs start stop =
     (if start < 0 \<or> stop < 0 \<or> sys_maxsize < start \<or> sys_maxsize < stop then Inl ValueError
      else if start < stop \<and> nat start < length xs then Inr (xs ! nat start)
      else Inl StopIteration)"

definition set_dump_fields :: "dump_item \<Rightarrow> node \<Rightarrow> node" where
  "set_dump_fields item n =
     Node (node_text n) (fset_of_list (item_tags item)) (fset_of_list (item_comments item))
          (item_new_in_config item) (order_weight n) (real_indent_level n) (children n)"

text \<open>The choice of the parent in the loop body of \<^verbatim>\<open>load_from_dump\<close>.\<close>

definition dump_parent :: "path \<Rightarrow> dump_item \<Rightarrow> error + path" where
  "dump_parent last_item item =
     (if item_depth item = 1 then Inr []
      else if depth last_item = item_depth item then parent last_item
      else if depth last_item + 1 = item_depth item then Inr last_item
      else next_islice (lineage last_item) (item_depth item - 2) (item_depth item - 1))"

text \<open>
  The loop of \<^verbatim>\<open>load_from_dump\<close>: the state is the tree under \<^verbatim>\<open>self\<close> and \<^verbatim>\<open>last_item\<close>.
\<close>

fun load_items :: "node \<Rightarrow> path \<Rightarrow> dump_item list \<Rightarrow> error + (node \<times> path)" where
  "load_items root last_item [] = Inr (root, last_item)"
| "load_items root last_item (item # items) =
     (case dump_parent last_item item of
        Inl e \<Rightarrow> Inl e
      | Inr par \<Rightarrow>
          (case add_child root par (item_text item) True of
             (root', obj) \<Rightarrow>
               load_items (modify (set_dump_fields item) obj root') obj items))"

definition load_from_dump :: "node \<Rightarrow> dump_item list \<Rightarrow> error + node" where
  "load_from_dump self dmp = map_sum id fst (load_items self [] dmp)"

subsection \<open>Auxiliary notions for the round trip\<close>

text \<open>
  The records of a node at depth \<open>d\<close> and of its descendants, in output order, described
  without references; and the node that \<^verbatim>\<open>load_from_dump\<close> creates from them: the
  children in output order, every \<^verbatim>\<open>order_weight\<close> the default.
\<close>

function (sequential) records ::
  "(string fset \<Rightarrow> string list) \<Rightarrow> int \<Rightarrow> node \<Rightarrow> dump_item list" where
  "records enum d (Node t tg cm nw ow rl cs) =
     node_item enum d (Node t tg cm nw ow rl cs) #
     concat (map (\<lambda>ic. records enum (d + 1) (snd ic)) (sorted_children cs))"
  by pat_completeness auto
termination
proof (relation "measure (\<lambda>(enum, d, n). size n)")
  show "wf (measure (\<lambda>(enum :: string fset \<Rightarrow> string list, d :: int, n :: node). size n))"
    by simp
next
  fix enum :: "string fset \<Rightarrow> string list" and d :: int
    and t tg cm nw ow rl cs and ic :: "nat \<times> node"
  assume "ic \<in> set (sorted_children cs)"
  then have "(fst ic, snd ic) \<in> set (zip [0..<length cs] cs)"
    by (simp add: sorted_children_def)
  then have "snd ic \<in> set cs"
    by (rule set_zip_rightD)
  then have "size (snd ic) < Suc (size_list size cs)"
    by (simp add: less_Suc_eq_le size_list_estimation')
  then show "((enum, d + 1, snd ic), (enum, d, Node t tg cm nw ow rl cs))
      \<in> measure (\<lambda>(enum, d, n). size n)"
    by simp
qed

definition forest_records ::
  "(string fset \<Rightarrow> string list) \<Rightarrow> int \<Rightarrow> node list \<Rightarrow> dump_item list" where
  "forest_records enum d cs = concat (map (\<lambda>ic. records enum d (snd ic)) (sorted_children cs))"

function (sequential) rebuilt :: "node \<Rightarrow> node" where
  "rebuilt (Node t tg cm nw ow rl cs) =
     Node t tg cm nw default_order_weight None
          (map (\<lambda>ic. rebuilt (snd ic)) (sorted_children cs))"
  by pat_completeness auto
termination
proof (relation "measure size")
  show "wf (measure size)" by simp
next
  fix t tg cm nw ow rl cs and ic :: "nat \<times> node"
  assume "ic \<in> set (sorted_children cs)"
  then have "(fst ic, snd ic) \<in> set (zip [0..<length cs] cs)"
    by (simp add: sorted_children_def)
  then have "snd ic \<in> set cs"
    by (rule set_zip_rightD)
  then have "size (snd ic) < Suc (size_list size cs)"
    by (simp add: less_Suc_eq_le size_list_estimation')
  then show "(snd ic, Node t tg cm nw ow rl cs) \<in> measure size"
    by simp
qed

text \<open>
  The record (depth, text, tags, comments, new_in_config) of a node, read from the tree
  itself, and the records of all nodes of a tree in output order.
\<close>

type_synonym node_record = "int \<times> string \<times> string fset \<times> string fset \<times> bool"

definition node_record :: "node \<Rightarrow> path \<Rightarrow> node_record" where
  "node_record root p =
     (case get root p of
        Some n \<Rightarrow> (depth p, node_text n, tags n, comments n, new_in_config n)
      | None \<Rightarrow> (depth p, [], {||}, {||}, False))"

definition tree_records :: "node \<Rightarrow> node_record list" where
  "tree_records root = map (node_record root) (all_children_sorted root)"

definition item_record :: "dump_item \<Rightarrow> node_record" where
  "item_record item =
     (item_depth item, item_text item, fset_of_list (item_tags item),
      fset_of_list (item_comments item), item_new_in_config item)"

text \<open>The greatest depth of a node below a node (0 for a node without children).\<close>

fun max_depth :: "node \<Rightarrow> nat" where
  "max_depth (Node t tg cm nw ow rl cs) = Max (set (0 # map (\<lambda>c. Suc (max_depth c)) cs))"

text \<open>
  Records that \<^verbatim>\<open>load_from_dump\<close> can attach below a node of depth \<open>prev\<close>: each depth is
  at least 1, at most one more than the depth before it, and within \<^verbatim>\<open>sys.maxsize\<close>.
\<close>

fun well_formed :: "int \<Rightarrow> dump_item list \<Rightarrow> bool" where
  "well_formed prev [] = True"
| "well_formed prev (x # xs) =
     (1 \<le> item_depth x \<and> item_depth x \<le> prev + 1 \<and> item_depth x \<le> sys_maxsize \<and>
      well_formed (item_depth x) xs)"

section \<open>Rule engine\<close>

text \<open>
  Modelled from the spec: \<^verbatim>\<open>lineage_test(rule, strip_negation)\<close> (section 4.2) walks the lineage of a
  node, outermost ancestor first and the node last, and tests each position against the
  specifier of the rule at that position; every position must match, so a rule matches
  nodes of the depth it has specifiers for. Both calls modelled here pass no
  \<^verbatim>\<open>strip_negation\<close>.
\<close>

definition endswith :: "string \<Rightarrow> string \<Rightarrow> bool" where
  "endswith s suf = suffix suf s"

definition specifier_matches :: "regex \<Rightarrow> specifier \<Rightarrow> string \<Rightarrow> bool" where
  "specifier_matches re s txt =
     (let m = (case kind s of
                 Equals \<Rightarrow> txt = expression s
               | Startswith \<Rightarrow> startswith txt (expression s)
               | Endswith \<Rightarrow> endswith txt (expression s)
               | Contains \<Rightarrow> contains txt (expression s)
               | Regex \<Rightarrow> re_search re (expression s) txt)
      in if negated s then \<not> m else m)"

definition lineage_matches :: "regex \<Rightarrow> lineage_rule \<Rightarrow> string list \<Rightarrow> bool" where
  "lineage_matches re rule texts =
     (length rule = length texts \<and> list_all2 (specifier_matches re) rule texts)"



section \<open>Filtered traversal\<close>





section \<open>Sectional exiting\<close>

text \<open>
  Modelled from the spec: \<^verbatim>\<open>text in child\<close> and \<^verbatim>\<open>del_child_by_text\<close> of the node primitive
  (sections 6 and 4.5: remove any existing direct child whose text equals the exit text).
\<close>

definition contains_text :: "node \<Rightarrow> string \<Rightarrow> bool" where
  "contains_text n txt = (\<exists>c \<in> set (children n). node_text c = txt)"

definition del_child_by_text :: "string \<Rightarrow> node \<Rightarrow> node" where
  "del_child_by_text txt n = set_children (filter (\<lambda>c. node_text c \<noteq> txt) (children n)) n"

definition assign_order_weight :: "int \<Rightarrow> node \<Rightarrow> node" where
  "assign_order_weight w n =
     Node (node_text n) (tags n) (comments n) (new_in_config n) w (real_indent_level n)
          (children n)"

text \<open>The body of the loop over the rules, for one \<^verbatim>\<open>child\<close> with the texts of its lineage.\<close>

definition exit_rule_step :: "regex \<Rightarrow> string list \<Rightarrow> node \<Rightarrow> exit_rule \<Rightarrow> node" where
  "exit_rule_step re texts child rule =
     (if lineage_matches re (exit_lineage rule) texts
      then (let c1 = (if contains_text child (exit_text rule)
                      then del_child_by_text (exit_text rule) child else child)
            in case add_child c1 [] (exit_text rule) False of
                 (c2, new_child) \<Rightarrow> modify (assign_order_weight 999) new_child c2)
      else child)"

definition apply_exit_rules :: "regex \<Rightarrow> exit_rule list \<Rightarrow> string list \<Rightarrow> node \<Rightarrow> node" where
  "apply_exit_rules re rules texts child = foldl (exit_rule_step re texts) child rules"

definition max_rule_length :: "exit_rule list \<Rightarrow> nat" where
  "max_rule_length rules = Max (set (0 # map (\<lambda>rule. length (exit_lineage rule)) rules))"

text \<open>
  Modelled from the spec: \<^verbatim>\<open>all_children()\<close> is a generator in pre-order. The loop over it
  receives a node, changes the children of that node, and only then does the generator
  go on into them: the children created for a node are visited as well.
\<close>

function exit_node :: "regex \<Rightarrow> exit_rule list \<Rightarrow> string list \<Rightarrow> node \<Rightarrow> node" where
  "exit_node re rules lin n =
     (let texts = lin @ [node_text n];
          n1 = apply_exit_rules re rules texts n
      in set_children (map (exit_node re rules texts) (children n1)) n1)"
  by pat_completeness auto
termination
proof (relation "measures [\<lambda>(re, rules, lin, n). Suc (max_rule_length rules) - length lin,
                           \<lambda>(re, rules, lin, n). size n]")
  show "wf (measures [\<lambda>(re :: regex, rules, lin :: string list, n :: node).
                        Suc (max_rule_length rules) - length lin,
                      \<lambda>(re, rules, lin, n). size n])"
    by simp
next
  fix re :: regex and rules lin and n c :: node and texts n1
  assume t: "texts = lin @ [node_text n]" and n1: "n1 = apply_exit_rules re rules texts n"
    and c: "c \<in> set (children n1)"
  show "((re, rules, texts, c), (re, rules, lin, n)) \<in>
          measures [\<lambda>(re, rules, lin, n). Suc (max_rule_length rules) - length lin,
                    \<lambda>(re, rules, lin, n). size n]"
  proof (cases "length lin \<le> max_rule_length rules")
    case True
    with t show ?thesis by (simp add: Suc_diff_le)
  next
    case False
    with t have "max_rule_length rules < length texts" by simp
    moreover have "length (exit_lineage rule) \<le> max_rule_length rules"
      if "rule \<in> set rules" for rule
      using that by (auto simp: max_rule_length_def intro!: Max_ge)
    ultimately have short: "\<forall>rule \<in> set rules. length (exit_lineage rule) \<noteq> length texts"
      by fastforce
    have "foldl (exit_rule_step re texts) m rs = m"
      if "\<forall>rule \<in> set rs. length (exit_lineage rule) \<noteq> length texts" for m rs
      using that
      by (induction rs arbitrary: m) (simp_all add: exit_rule_step_def lineage_matches_def)
    with short n1 have "n1 = n" by (simp add: apply_exit_rules_def)
    with c have "size c < size n"
      by (cases n) (auto simp: less_Suc_eq_le size_list_estimation')
    with t False show ?thesis by simp
  qed
qed

declare exit_node.simps [simp del]

text \<open>
  \<^verbatim>\<open>add_sectional_exiting\<close>: \<^verbatim>\<open>self.options['sectional_exiting']\<close> is read when the first
  node is visited.
\<close>

definition add_sectional_exiting :: "regex \<Rightarrow> options \<Rightarrow> node \<Rightarrow> error + node" where
  "add_sectional_exiting re opts self =
     (if children self = [] then Inr self
      else case sectional_exiting opts of
             None \<Rightarrow> Inl (KeyError ''sectional_exiting'')
           | Some rules \<Rightarrow> Inr (set_children (map (exit_node re rules []) (children self)) self))"

subsection \<open>Auxiliary notions for sectional exiting\<close>

text \<open>
  The child that \<^verbatim>\<open>add_sectional_exiting\<close> creates, the loop over the rules read on the
  list of children alone, the exit texts of the rules that match a lineage, and the
  property that every node of a subtree has, for each rule that matches it, exactly one
  child with the exit text of the rule, of order weight 999.
\<close>

definition exit_leaf :: "string \<Rightarrow> node" where
  "exit_leaf e = Node e {||} {||} False 999 None []"

fun exit_children :: "regex \<Rightarrow> exit_rule list \<Rightarrow> string list \<Rightarrow> node list \<Rightarrow> node list" where
  "exit_children re [] texts cs = cs"
| "exit_children re (rule # rules) texts cs =
     exit_children re rules texts
       (if lineage_matches re (exit_lineage rule) texts
        then filter (\<lambda>c. node_text c \<noteq> exit_text rule) cs @ [exit_leaf (exit_text rule)]
        else cs)"

definition exit_texts :: "regex \<Rightarrow> exit_rule list \<Rightarrow> string list \<Rightarrow> string set" where
  "exit_texts re rules texts =
     set (map exit_text (filter (\<lambda>rule. lineage_matches re (exit_lineage rule) texts) rules))"

fun exits_ok :: "regex \<Rightarrow> exit_rule list \<Rightarrow> string list \<Rightarrow> node \<Rightarrow> bool" where
  "exits_ok re rules lin (Node t tg cm nw ow rl cs) =
     ((\<forall>rule \<in> set rules. lineage_matches re (exit_lineage rule) (lin @ [t]) \<longrightarrow>
         (\<exists>c. filter (\<lambda>c. node_text c = exit_text rule) cs = [c] \<and> order_weight c = 999)) \<and>
      (\<forall>c \<in> set cs. exits_ok re rules (lin @ [t]) c))"

section \<open>Access-list remarks\<close>

text \<open>
  The inner loop of \<^verbatim>\<open>_remove_acl_remarks\<close>: a \<^verbatim>\<open>for\<close> over the list \<^verbatim>\<open>acl.children\<close> that the
  body shortens. The iterator of a Python list keeps a position and stops when the
  position reaches the current length; \<^verbatim>\<open>list.remove(entry)\<close> drops the first element
  equal to \<^verbatim>\<open>entry\<close>.
\<close>

function remove_remarks_from :: "nat \<Rightarrow> node list \<Rightarrow> node list" where
  "remove_remarks_from i entries =
     (if i < length entries
      then (if startswith (node_text (entries ! i)) ''remark''
            then remove_remarks_from (Suc i) (remove1 (entries ! i) entries)
            else remove_remarks_from (Suc i) entries)
      else entries)"
  by pat_completeness auto
termination
  by (relation "measure (\<lambda>(i, entries). length entries - i)")
     (auto simp: length_remove1)

declare remove_remarks_from.simps [simp del]

text \<open>
  Modelled from the spec: \<^verbatim>\<open>get_children('startswith', 'ip access-list ')\<close> yields the
  children of the root whose text starts with the expression.
\<close>

definition remove_acl_remarks :: "node \<Rightarrow> node" where
  "remove_acl_remarks self =
     set_children
       (map (\<lambda>acl. if startswith (node_text acl) ''ip access-list ''
                   then set_children (remove_remarks_from 0 (children acl)) acl
                   else acl)
            (children self)) self"

section \<open>Example inputs\<close>

definition example_item :: "int \<Rightarrow> string \<Rightarrow> dump_item" where
  "example_item d txt =
     \<lparr> item_depth = d, item_text = txt, item_tags = [], item_comments = [],
       item_new_in_config = False \<rparr>"

definition example_tree :: node where
  "example_tree =
     Node [] {||} {||} False default_order_weight None
       [Node ''interface Vlan2'' {|''net''|} {||} True default_order_weight None
          [Node ''shutdown'' {||} {|''down''|} False 10 None []],
        Node ''hostname r1'' {||} {||} False 1 None []]"

definition re_plain :: regex where
  "re_plain = \<lparr> re_sub = (\<lambda>pattern repl s. s), re_search = (\<lambda>pattern s. False) \<rparr>"


definition banner_example :: string where
  "banner_example = ''banner motd ^C\<newline>Welcome to the device\<newline>^C''"

definition unterminated_example :: string where
  "unterminated_example = ''banner motd ^C\<newline>Welcome to the device''"


definition acl_example :: node where
  "acl_example =
     Node [] {||} {||} False default_order_weight None
       [Node ''ip access-list extended TEST'' {||} {||} False default_order_weight None
          [Node ''remark first'' {||} {||} False default_order_weight None [],
           Node ''remark second'' {||} {||} False default_order_weight None [],
           Node ''permit ip any any'' {||} {||} False default_order_weight None []]]"



definition interface_exit_rules :: "exit_rule list" where
  "interface_exit_rules =
     [\<lparr> exit_lineage = [\<lparr> kind = Startswith, negated = False, expression = ''interface'' \<rparr>],
        exit_text = ''exit'' \<rparr>]"

definition interface_tree :: node where
  "interface_tree =
     Node [] {||} {||} False default_order_weight None
       [Node ''interface Vlan2'' {||} {||} False default_order_weight None
          [Node ''exit'' {||} {||} False default_order_weight None [],
           Node ''shutdown'' {||} {||} False default_order_weight None [],
           Node ''exit'' {||} {||} False default_order_weight None []],
        Node ''hostname r1'' {||} {||} False default_order_weight None []]"

section \<open>Properties of the serializer\<close>

lemma length_lineage: "length (lineage p) = length p"
  by (simp add: lineage_def del: upt_Suc)

lemma nth_lineage: "k < length p \<Longrightarrow> lineage p ! k = take (Suc k) p"
  by (simp add: lineage_def del: upt_Suc)

lemma dump_parent_depth:
  "dump_parent l item = Inr par \<Longrightarrow> depth par + 1 = item_depth item"
  by (cases l rule: rev_cases)
     (auto simp: dump_parent_def parent_def depth_def next_islice_def length_lineage nth_lineage
      split: if_splits)

lemma add_child_force_path:
  "add_child root p txt True = (modify (append_child (new_node txt)) p root,
     p @ [length (children_of root p)])"
  by (simp add: add_child_def)

lemma load_items_step:
  "dump_parent l item = Inr par \<Longrightarrow>
   load_items root l (item # items) =
   load_items (modify (set_dump_fields item) (par @ [length (children_of root par)])
                (modify (append_child (new_node (item_text item))) par root))
              (par @ [length (children_of root par)]) items"
  by (simp add: add_child_force_path)

lemma load_items_append:
  "load_items root l (xs @ ys) =
     (case load_items root l xs of Inl e \<Rightarrow> Inl e | Inr (root', l') \<Rightarrow> load_items root' l' ys)"
  by (induction xs arbitrary: root l) (auto split: sum.splits prod.splits)

lemma dump_parent_malformed:
  assumes "item_depth item = 0 \<or> depth l + 1 < item_depth item"
  shows "\<exists>e. dump_parent l item = Inl e \<and> e \<in> {AttributeError, ValueError, StopIteration}"
  using assms
  by (cases "l = []")
     (auto simp: dump_parent_def parent_def depth_def next_islice_def length_lineage)

lemma dump_parent_well_formed:
  assumes "1 \<le> item_depth item" "item_depth item \<le> depth l + 1" "item_depth item \<le> sys_maxsize"
  shows "\<exists>par. dump_parent l item = Inr par"
  using assms
  by (cases "l = []")
     (auto simp: dump_parent_def parent_def depth_def next_islice_def length_lineage)

lemma load_items_well_formed:
  "well_formed (depth l) items \<Longrightarrow>
   \<exists>root' l'. load_items root l items = Inr (root', l') \<and>
     depth l' = (if items = [] then depth l else item_depth (last items))"
proof (induction items arbitrary: root l)
  case Nil
  then show ?case by simp
next
  case (Cons item items)
  then obtain par where par: "dump_parent l item = Inr par"
    using dump_parent_well_formed[of item l] by auto
  let ?obj = "par @ [length (children_of root par)]"
  let ?root1 = "modify (set_dump_fields item) ?obj
                  (modify (append_child (new_node (item_text item))) par root)"
  have dobj: "depth ?obj = item_depth item"
    using dump_parent_depth[OF par] by (simp add: depth_def)
  with Cons.prems have "well_formed (depth ?obj) items" by simp
  from Cons.IH[OF this, of ?root1] obtain root' l' where
    "load_items ?root1 ?obj items = Inr (root', l')"
    "depth l' = (if items = [] then depth ?obj else item_depth (last items))"
    by blast
  then show ?case using load_items_step[OF par, of root items] dobj by auto
qed

lemma well_formed_nth:
  assumes "\<forall>k<length xs. 1 \<le> item_depth (xs ! k) \<and>
      item_depth (xs ! k) \<le> (if k = 0 then prev else item_depth (xs ! (k - 1))) + 1 \<and>
      item_depth (xs ! k) \<le> sys_maxsize"
  shows "well_formed prev xs"
  using assms
proof (induction xs arbitrary: prev)
  case Nil
  then show ?case by simp
next
  case (Cons x xs)
  from Cons.prems have head: "1 \<le> item_depth x \<and> item_depth x \<le> prev + 1 \<and>
      item_depth x \<le> sys_maxsize"
    by (auto dest: spec[of _ 0])
  have "\<forall>k<length xs. 1 \<le> item_depth (xs ! k) \<and>
      item_depth (xs ! k) \<le> (if k = 0 then item_depth x else item_depth (xs ! (k - 1))) + 1 \<and>
      item_depth (xs ! k) \<le> sys_maxsize"
  proof (intro allI impI)
    fix k assume "k < length xs"
    with Cons.prems have "1 \<le> item_depth ((x # xs) ! Suc k) \<and>
      item_depth ((x # xs) ! Suc k) \<le> item_depth ((x # xs) ! (Suc k - 1)) + 1 \<and>
      item_depth ((x # xs) ! Suc k) \<le> sys_maxsize"
      by (auto dest: spec[of _ "Suc k"])
    then show "1 \<le> item_depth (xs ! k) \<and>
      item_depth (xs ! k) \<le> (if k = 0 then item_depth x else item_depth (xs ! (k - 1))) + 1 \<and>
      item_depth (xs ! k) \<le> sys_maxsize"
      by (cases k) auto
  qed
  from Cons.IH[OF this] head show ?case by simp
qed

lemma children_set_children [simp]: "children (set_children cs n) = cs"
  by (simp add: set_children_def)

lemma get_append: "get root (p @ q) = (case get root p of None \<Rightarrow> None | Some n \<Rightarrow> get n q)"
  by (induction p arbitrary: root) auto

lemma modify_append: "modify g (p @ q) root = modify (modify g q) p root"
  by (induction p arbitrary: root) auto

lemma modify_modify: "modify g p (modify f p root) = modify (g \<circ> f) p root"
  by (induction p arbitrary: root) (auto simp: set_children_def)

lemma modify_cong_get:
  "get root p = Some n \<Longrightarrow> f n = g n \<Longrightarrow> modify f p root = modify g p root"
  by (induction p arbitrary: root) (auto split: if_splits)

lemma get_modify: "get root p = Some n \<Longrightarrow> get (modify f p root) p = Some (f n)"
  by (induction p arbitrary: root) (auto split: if_splits)

lemma children_of_get: "get root p = Some n \<Longrightarrow> children_of root p = children n"
  by (simp add: children_of_def)

lemma modify_new_child:
  assumes "get root p = Some pn"
  shows "modify g (p @ [length (children pn)]) (modify (append_child c) p root) =
         modify (append_child (g c)) p root"
proof -
  have "modify g (p @ [length (children pn)]) (modify (append_child c) p root) =
        modify (modify g [length (children pn)] \<circ> append_child c) p root"
    by (simp add: modify_append modify_modify)
  also have "\<dots> = modify (append_child (g c)) p root"
    by (rule modify_cong_get[OF assms]) (simp add: append_child_def set_children_def)
  finally show ?thesis .
qed

lemma dump_parent_prefix:
  assumes "prefix p l" and "item_depth item = int (length p) + 1"
    and "int (length p) \<le> sys_maxsize"
  shows "dump_parent l item = Inr p"
proof -
  from assms(1) obtain q where l: "l = p @ q" by (auto simp: prefix_def)
  show ?thesis
  proof (cases "p = []")
    case True
    with assms(2) show ?thesis by (simp add: dump_parent_def)
  next
    case False
    then have d: "item_depth item \<noteq> 1" using assms(2) by simp
    consider "q = []" | x where "q = [x]" | "2 \<le> length q"
      by (cases q; cases "tl q") auto
    then show ?thesis
    proof cases
      case 1
      with l d assms(2) show ?thesis by (simp add: dump_parent_def depth_def)
    next
      case 2
      with l d assms(2) show ?thesis by (simp add: dump_parent_def depth_def parent_def)
    next
      case 3
      have "nat (item_depth item - 2) = length p - 1" using assms(2) by simp
      moreover have "length p - 1 < length l" using l False by (cases p) auto
      moreover have "Suc (length p - 1) = length p" using False by (cases p) auto
      ultimately show ?thesis using l d 3 assms(2,3) False
        by (simp add: dump_parent_def depth_def next_islice_def length_lineage nth_lineage)
    qed
  qed
qed

lemma set_children_children [simp]: "set_children (children n) n = n"
  by (cases n) (simp add: set_children_def)

lemma modify_id: "get root p = Some n \<Longrightarrow> f n = n \<Longrightarrow> modify f p root = root"
  by (induction p arbitrary: root) (auto split: if_splits simp: list_update_same_conv)

lemma max_depth_child: "c \<in> set (children n) \<Longrightarrow> Suc (max_depth c) \<le> max_depth n"
  by (cases n) (auto intro!: Max_ge)

lemma sorted_children_mem:
  "ic \<in> set (sorted_children cs) \<Longrightarrow> fst ic < length cs \<and> cs ! fst ic = snd ic"
  by (cases ic) (auto simp: sorted_children_def in_set_zip)

lemma load_forest:
  assumes T: "\<And>x root l pn rest. x \<in> set xs \<Longrightarrow> prefix p l \<Longrightarrow>
      get root p = Some pn \<Longrightarrow>
      \<exists>l'. prefix (p @ [length (children pn)]) l' \<and>
        load_items root l (records enum d x @ rest) =
        load_items (modify (append_child (rebuilt x)) p root) l' rest"
    and "prefix p l" "get root p = Some pn"
  shows "\<exists>l'. prefix p l' \<and>
      load_items root l (concat (map (records enum d) xs) @ rest) =
      load_items (modify (\<lambda>n. set_children (children n @ map rebuilt xs) n) p root) l' rest"
  using assms
proof (induction xs arbitrary: root l pn)
  case Nil
  have "modify (\<lambda>n. set_children (children n @ map rebuilt []) n) p root = root"
    by (rule modify_id[OF Nil.prems(3)]) simp
  with Nil.prems(2) show ?case by auto
next
  case (Cons x xs)
  from Cons.prems(1)[of x l root pn "concat (map (records enum d) xs) @ rest"] Cons.prems(2-3)
  obtain l1 where l1: "prefix (p @ [length (children pn)]) l1"
    and e1: "load_items root l (records enum d x @ concat (map (records enum d) xs) @ rest) =
             load_items (modify (append_child (rebuilt x)) p root) l1
               (concat (map (records enum d) xs) @ rest)"
    by auto
  let ?root1 = "modify (append_child (rebuilt x)) p root"
  have p1: "prefix p l1" using l1 by (meson append_prefixD)
  have g1: "get ?root1 p = Some (append_child (rebuilt x) pn)"
    by (rule get_modify[OF Cons.prems(3)])
  have "\<exists>l'. prefix p l' \<and>
      load_items ?root1 l1 (concat (map (records enum d) xs) @ rest) =
      load_items (modify (\<lambda>n. set_children (children n @ map rebuilt xs) n) p ?root1) l' rest"
    by (rule Cons.IH[OF _ p1 g1]) (rule Cons.prems(1), auto)
  then obtain l' where l': "prefix p l'"
    and e2: "load_items ?root1 l1 (concat (map (records enum d) xs) @ rest) =
      load_items (modify (\<lambda>n. set_children (children n @ map rebuilt xs) n) p ?root1) l' rest"
    by blast
  have "modify (\<lambda>n. set_children (children n @ map rebuilt xs) n) p ?root1 =
        modify ((\<lambda>n. set_children (children n @ map rebuilt xs) n) \<circ> append_child (rebuilt x)) p root"
    by (simp add: modify_modify)
  also have "\<dots> = modify (\<lambda>n. set_children (children n @ map rebuilt (x # xs)) n) p root"
    by (rule modify_cong_get[OF Cons.prems(3)]) (simp add: append_child_def set_children_def)
  finally show ?case using l' e1 e2 by auto
qed

lemma load_tree:
  "\<forall>S. fset_of_list (enum S) = S \<Longrightarrow> prefix p l \<Longrightarrow> int (length p) + 1 = d \<Longrightarrow> get root p = Some pn \<Longrightarrow>
   int (length p) + int (max_depth n) \<le> sys_maxsize \<Longrightarrow>
   \<exists>l'. prefix (p @ [length (children pn)]) l' \<and>
        load_items root l (records enum d n @ rest) =
        load_items (modify (append_child (rebuilt n)) p root) l' rest"
proof (induction enum d n arbitrary: root l p pn rest rule: records.induct)
  case (1 enum d t tg cm nw ow rl cs)
  let ?n = "Node t tg cm nw ow rl cs"
  let ?xs = "map snd (sorted_children cs)"
  let ?item = "node_item enum d ?n"
  let ?k = "length (children pn)"
  let ?obj = "p @ [?k]"
  let ?c0 = "Node t tg cm nw default_order_weight None []"
  let ?root1 = "modify (append_child ?c0) p root"
  have recs: "records enum d ?n @ rest = ?item # (concat (map (records enum (d + 1)) ?xs) @ rest)"
    by (simp add: comp_def)
  have lp: "int (length p) \<le> sys_maxsize" using "1.prems"(5) by simp
  have dp: "dump_parent l ?item = Inr p"
    by (rule dump_parent_prefix[OF "1.prems"(2) _ lp]) (simp add: node_item_def "1.prems"(3))
  have c0: "set_dump_fields ?item (new_node (item_text ?item)) = ?c0"
    using "1.prems"(1) by (simp add: set_dump_fields_def node_item_def new_node_def)
  have "modify (set_dump_fields ?item) ?obj
          (modify (append_child (new_node (item_text ?item))) p root) = ?root1"
    using modify_new_child[OF "1.prems"(4)] c0 by simp
  then have step: "load_items root l (records enum d ?n @ rest) =
      load_items ?root1 ?obj (concat (map (records enum (d + 1)) ?xs) @ rest)"
    using load_items_step[OF dp, of root] recs "1.prems"(4) by (simp add: children_of_get)
  have g1: "get ?root1 ?obj = Some ?c0"
    using get_modify[OF "1.prems"(4), of "append_child ?c0"]
    by (simp add: get_append append_child_def nth_append)
  have "\<exists>l'. prefix ?obj l' \<and>
      load_items ?root1 ?obj (concat (map (records enum (d + 1)) ?xs) @ rest) =
      load_items (modify (\<lambda>n. set_children (children n @ map rebuilt ?xs) n) ?obj ?root1) l' rest"
  proof (rule load_forest[OF _ _ g1])
    fix x root' l' pn' rest'
    assume x: "x \<in> set ?xs" and pl: "prefix ?obj l'" and g: "get root' ?obj = Some pn'"
    from x obtain ic where ic: "ic \<in> set (sorted_children cs)" "x = snd ic" by auto
    with sorted_children_mem[of ic cs] have "x \<in> set (children ?n)"
      by (metis node.sel(7) nth_mem)
    from max_depth_child[OF this] "1.prems"(5)
    have "int (length ?obj) + int (max_depth x) \<le> sys_maxsize" by simp
    with ic pl g "1.prems"(3) "1.prems"(1)
    show "\<exists>l''. prefix (?obj @ [length (children pn')]) l'' \<and>
        load_items root' l' (records enum (d + 1) x @ rest') =
        load_items (modify (append_child (rebuilt x)) ?obj root') l'' rest'"
      using "1.IH"[of ic ?obj l' root' pn' rest'] by auto
  next
    show "prefix ?obj ?obj" by simp
  qed
  then obtain l' where l': "prefix ?obj l'"
    and e: "load_items ?root1 ?obj (concat (map (records enum (d + 1)) ?xs) @ rest) =
      load_items (modify (\<lambda>n. set_children (children n @ map rebuilt ?xs) n) ?obj ?root1) l' rest"
    by blast
  have "modify (\<lambda>n. set_children (children n @ map rebuilt ?xs) n) ?obj ?root1 =
        modify (append_child (set_children (children ?c0 @ map rebuilt ?xs) ?c0)) p root"
    by (rule modify_new_child[OF "1.prems"(4)])
  also have "set_children (children ?c0 @ map rebuilt ?xs) ?c0 = rebuilt ?n"
    by (simp add: set_children_def comp_def)
  finally show ?case using l' e step by auto
qed

lemma dump_paths_records:
  "get root p = Some n \<Longrightarrow>
   map (item_of enum root) (map ((@) p) (all_children_sorted n)) =
   forest_records enum (int (length p) + 1) (children n)"
proof (induction n arbitrary: p rule: all_children_sorted.induct)
  case (1 t tg cm nw ow rl cs)
  have "map (item_of enum root) (map ((@) p) ([fst ic] # map ((#) (fst ic)) (all_children_sorted (snd ic)))) =
        records enum (int (length p) + 1) (snd ic)"
    if ic: "ic \<in> set (sorted_children cs)" for ic
  proof -
    from sorted_children_mem[OF ic] have i: "fst ic < length cs" "cs ! fst ic = snd ic" by auto
    with "1.prems" have g: "get root (p @ [fst ic]) = Some (snd ic)"
      by (simp add: get_append)
    have "map (item_of enum root) (map ((@) (p @ [fst ic])) (all_children_sorted (snd ic))) =
          forest_records enum (int (length (p @ [fst ic])) + 1) (children (snd ic))"
      by (rule "1.IH"[OF ic g])
    moreover have "item_of enum root (p @ [fst ic]) = node_item enum (int (length p) + 1) (snd ic)"
      using g by (simp add: item_of_def depth_def add.commute)
    moreover have "records enum (int (length p) + 1) (snd ic) =
        node_item enum (int (length p) + 1) (snd ic) #
        forest_records enum (int (length p) + 1 + 1) (children (snd ic))"
      by (cases "snd ic") (simp add: forest_records_def)
    ultimately show ?thesis by (simp add: comp_def add.commute)
  qed
  then show ?case
    by (simp add: forest_records_def map_concat comp_def cong: map_cong)
qed

lemma sorted_children_default:
  assumes "\<forall>c \<in> set cs. order_weight c = w"
  shows "sorted_children cs = zip [0..<length cs] cs"
proof -
  have "map (\<lambda>ic. order_weight (snd ic)) (zip [0..<length cs] cs) =
        map (\<lambda>ic. w) (zip [0..<length cs] cs)"
    using assms by (auto dest: set_zip_rightD)
  then have "sorted (map (\<lambda>ic. order_weight (snd ic)) (zip [0..<length cs] cs))"
    by (simp add: sorted_wrt_iff_nth_less del: map_eq_conv)
  then show ?thesis
    unfolding sorted_children_def by (rule sort_key_id_if_sorted)
qed

lemma order_weight_rebuilt [simp]: "order_weight (rebuilt n) = default_order_weight"
  by (cases n) simp

lemma node_item_rebuilt [simp]: "node_item enum d (rebuilt n) = node_item enum d n"
  by (cases n) (simp add: node_item_def)

lemma map_snd_zip_upt: "map snd (zip [0..<length cs] cs) = cs"
  by (simp add: map_snd_zip)

lemma records_rebuilt: "records enum d (rebuilt n) = records enum d n"
proof (induction enum d n rule: records.induct)
  case (1 enum d t tg cm nw ow rl cs)
  let ?xs = "map (\<lambda>ic. rebuilt (snd ic)) (sorted_children cs)"
  have sc: "sorted_children ?xs = zip [0..<length ?xs] ?xs"
    by (rule sorted_children_default[where w = default_order_weight]) auto
  have "concat (map (\<lambda>ic. records enum (d + 1) (snd ic)) (sorted_children ?xs)) =
        concat (map (records enum (d + 1)) (map snd (zip [0..<length ?xs] ?xs)))"
    by (simp only: sc map_map comp_def)
  also have "\<dots> = concat (map (records enum (d + 1)) ?xs)"
    by (simp only: map_snd_zip_upt)
  also have "\<dots> = concat (map (\<lambda>ic. records enum (d + 1) (snd ic)) (sorted_children cs))"
    using "1.IH" by (simp add: comp_def cong: map_cong)
  finally show ?case
    using node_item_rebuilt[of enum d "Node t tg cm nw ow rl cs"] by simp
qed

lemma dump_forest: "dump enum T = forest_records enum 1 (children T)"
proof -
  have "(@) ([] :: path) = (\<lambda>q. q)" by (rule ext) simp
  with dump_paths_records[of T "[]" T enum] show ?thesis by (simp add: dump_def)
qed

lemma forest_records_rebuilt:
  "forest_records enum d (map rebuilt xs) = concat (map (records enum d) xs)"
proof -
  have "sorted_children (map rebuilt xs) = zip [0..<length (map rebuilt xs)] (map rebuilt xs)"
    by (rule sorted_children_default[where w = default_order_weight]) auto
  then have "forest_records enum d (map rebuilt xs) =
             concat (map (records enum d) (map snd (zip [0..<length (map rebuilt xs)] (map rebuilt xs))))"
    by (simp only: forest_records_def map_map comp_def)
  also have "\<dots> = concat (map (records enum d) (map rebuilt xs))"
    by (simp only: map_snd_zip_upt)
  finally show ?thesis by (simp add: comp_def records_rebuilt)
qed

lemma tree_records_dump:
  assumes "\<forall>S. fset_of_list (enum S) = S"
  shows "map item_record (dump enum root) = tree_records root"
  using assms
  by (auto simp: dump_def tree_records_def item_record_def item_of_def node_record_def
      node_item_def split: option.splits)

text \<open>
  C1. Round trip: for every tree \<open>T\<close> (no deeper than \<^verbatim>\<open>sys.maxsize\<close>, as every tree in
  memory is) and every way \<open>enum\<close> of listing a set, \<^verbatim>\<open>load_from_dump\<close> applied to a fresh
  root and to \<^verbatim>\<open>dump(T)\<close> (no lineage rules) returns the tree that holds, for every node of
  \<open>T\<close>, a node of the same text, tags, comments and new_in_config at the same place of
  the output order; the records (depth, text, tags, comments, new_in_config) of its
  nodes, read from the tree itself, are those of \<open>T\<close>.
\<close>

theorem dump_load_round_trip:
  assumes "\<forall>S. fset_of_list (enum S) = S" and "int (max_depth T) \<le> sys_maxsize"
  shows "load_from_dump empty_root (dump enum T) =
           Inr (set_children (map rebuilt (map snd (sorted_children (children T)))) empty_root) \<and>
         tree_records (set_children (map rebuilt (map snd (sorted_children (children T)))) empty_root) =
           tree_records T"
proof -
  let ?xs = "map snd (sorted_children (children T))"
  let ?T' = "set_children (map rebuilt ?xs) empty_root"
  have fr: "forest_records enum 1 (children T) = concat (map (records enum 1) ?xs)"
    by (simp add: forest_records_def comp_def)
  have "\<exists>l'. prefix [] l' \<and>
      load_items empty_root [] (concat (map (records enum 1) ?xs) @ []) =
      load_items (modify (\<lambda>n. set_children (children n @ map rebuilt ?xs) n) [] empty_root) l' []"
  proof (rule load_forest)
    fix x root pn rest and l :: path
    assume x: "x \<in> set ?xs" and pl: "prefix [] l" and g: "get root [] = Some pn"
    from x obtain ic where ic: "ic \<in> set (sorted_children (children T))" "x = snd ic" by auto
    with sorted_children_mem[of ic "children T"] have "x \<in> set (children T)"
      by (metis nth_mem)
    from max_depth_child[OF this] assms(2)
    have "int (length ([] :: path)) + int (max_depth x) \<le> sys_maxsize" by simp
    with pl g assms(1)
    show "\<exists>l'. prefix ([] @ [length (children pn)]) l' \<and>
        load_items root l (records enum 1 x @ rest) =
        load_items (modify (append_child (rebuilt x)) [] root) l' rest"
      by (intro load_tree) auto
  qed simp_all
  then obtain l' where "load_items empty_root [] (dump enum T) = Inr (?T', l')"
    by (auto simp: dump_forest fr empty_root_def)
  then have load: "load_from_dump empty_root (dump enum T) = Inr ?T'"
    by (simp add: load_from_dump_def)
  have "dump enum ?T' = dump enum T"
    using forest_records_rebuilt[of enum 1 ?xs] by (simp add: dump_forest fr)
  then have "map item_record (dump enum ?T') = map item_record (dump enum T)"
    by simp
  then have "tree_records ?T' = tree_records T"
    by (simp only: tree_records_dump[OF assms(1)])
  with load show ?thesis by blast
qed

theorem dump_load_round_trip_witness:
  "load_from_dump empty_root (dump sorted_list_of_fset example_tree) =
     Inr (set_children (map rebuilt (map snd (sorted_children (children example_tree))))
            empty_root) \<and>
   tree_records (set_children (map rebuilt (map snd (sorted_children (children example_tree))))
                   empty_root) =
     tree_records example_tree"
  using dump_load_round_trip [of sorted_list_of_fset example_tree]
  by (simp add: example_tree_def sys_maxsize_def)

text \<open>
  C5 (as amended). When the records before a malformed record (depth 0, or a depth more
  than one above the depth of the record before it; the root, of depth 0, stands before
  the first record) are well formed, \<^verbatim>\<open>load_from_dump\<close> loads them and then raises while
  it chooses the parent of the malformed record, before any node is created for it. The
  exception is not a descriptive one: it is the \<^verbatim>\<open>AttributeError\<close>, \<^verbatim>\<open>ValueError\<close> or
  \<^verbatim>\<open>StopIteration\<close> that the lookup of the parent happens to raise.
\<close>

theorem load_from_dump_malformed:
  assumes "\<forall>k<length pre. 1 \<le> item_depth (pre ! k) \<and>
      item_depth (pre ! k) \<le> (if k = 0 then 0 else item_depth (pre ! (k - 1))) + 1 \<and>
      item_depth (pre ! k) \<le> sys_maxsize"
    and "item_depth item = 0 \<or>
      (if pre = [] then 0 else item_depth (last pre)) + 1 < item_depth item"
  shows "\<exists>root' l' e. load_items self [] pre = Inr (root', l') \<and>
      dump_parent l' item = Inl e \<and> e \<in> {AttributeError, ValueError, StopIteration} \<and>
      load_from_dump self (pre @ item # rest) = Inl e"
proof -
  have "depth [] = 0" by (simp add: depth_def)
  with assms(1) have "well_formed (depth []) pre"
    by (simp only: well_formed_nth)
  from load_items_well_formed[OF this, of self] obtain root' l' where
    pre: "load_items self [] pre = Inr (root', l')"
    and d: "depth l' = (if pre = [] then depth [] else item_depth (last pre))"
    by blast
  from assms(2) d have "item_depth item = 0 \<or> depth l' + 1 < item_depth item"
    by (auto simp: depth_def split: if_splits)
  from dump_parent_malformed[OF this] obtain e where
    e: "dump_parent l' item = Inl e" "e \<in> {AttributeError, ValueError, StopIteration}"
    by blast
  have "load_from_dump self (pre @ item # rest) = Inl e"
    using pre e(1) by (simp add: load_from_dump_def load_items_append)
  with pre e show ?thesis by blast
qed

theorem load_from_dump_malformed_witness:
  "\<exists>root' l' e.
     load_items empty_root [] [example_item 1 ''a''] = Inr (root', l') \<and>
     dump_parent l' (example_item 0 ''b'') = Inl e \<and>
     e \<in> {AttributeError, ValueError, StopIteration} \<and>
     load_from_dump empty_root ([example_item 1 ''a''] @ example_item 0 ''b'' # []) = Inl e"
  using load_from_dump_malformed
    [of "[example_item 1 ''a'']" "example_item 0 ''b''" empty_root "[]"]
  by (simp add: example_item_def sys_maxsize_def)

text \<open>
  C5 as stated fails: for a record of depth 1 followed by a record of depth 3 the call
  ends in the bare \<^verbatim>\<open>StopIteration\<close> of \<^verbatim>\<open>next(islice(...))\<close>, which names neither the record
  nor its depth.
\<close>

theorem load_from_dump_malformed_counterexample:
  "load_from_dump empty_root [example_item 1 ''a'', example_item 3 ''b''] = Inl StopIteration"
  by (simp add: example_item_def load_from_dump_def dump_parent_def depth_def parent_def
      next_islice_def lineage_def add_child_def children_of_def empty_root_def sys_maxsize_def)

section \<open>Properties of the parser\<close>







lemma banner_end_lines_banner_line [simp]:
  "banner_end_lines (banner_line st line) = banner_end_lines st"
  "banner_end_contains (banner_line st line) = banner_end_contains st"
  by (simp_all add: banner_line_def Let_def split: prod.splits)

lemma banner_end_lines_banner_start:
  "set (banner_end_lines st) \<subseteq> set (banner_end_lines (banner_start st line))"
  by (auto simp: banner_start_def Let_def)

lemma banner_end_lines_adjust_indent [simp]:
  "banner_end_lines (adjust_indent re exprs line st) = banner_end_lines st"
  by (simp add: adjust_indent_def Let_def split: option.splits)

lemma banner_end_lines_normal_line:
  "normal_line re opts st line = Inr st' \<Longrightarrow> banner_end_lines st' = banner_end_lines st"
  by (auto simp: normal_line_def Let_def split: option.splits sum.splits prod.splits if_splits)

lemma banner_end_lines_process_line:
  "process_line re opts st line = Inr st' \<Longrightarrow>
   set (banner_end_lines st) \<subseteq> set (banner_end_lines st')"
  using banner_end_lines_banner_start[of st line]
  by (auto simp: process_line_def dest: banner_end_lines_normal_line split: if_splits)

lemma banner_end_lines_parse_lines:
  "parse_lines re opts st lines = Inr st' \<Longrightarrow>
   set (banner_end_lines st) \<subseteq> set (banner_end_lines st')"
proof (induction lines arbitrary: st)
  case Nil
  then show ?case by simp
next
  case (Cons line lines)
  then obtain st1 where 1: "process_line re opts st line = Inr st1"
    and 2: "parse_lines re opts st1 lines = Inr st'"
    by (auto split: sum.splits)
  from banner_end_lines_process_line[OF 1] Cons.IH[OF 2] show ?case by blast
qed

lemma universal_terminators:
  assumes "parse_lines re opts (init_state self) lines = Inr st"
  shows "{''EOF'', ''%'', ''!''} \<subseteq> set (banner_end_lines st)"
  using banner_end_lines_parse_lines[OF assms] by (simp add: init_state_def)

lemma banner_line_terminates:
  assumes "end_of_banner_test st line"
  shows "\<not> in_banner (banner_line st line) \<and>
     children (tree (banner_line st line)) = children (tree st) @
       [Node (join ''\<newline>''
                (if line \<noteq> ''!'' then temp_banner st @ [line] else temp_banner st))
          {||} {||} False default_order_weight (Some 0) []]"
  using assms
  by (simp add: banner_line_def Let_def add_child_def children_of_def append_child_def
      new_node_def set_real_indent_level_def)

lemma parse_lines_append:
  "parse_lines re opts st (xs @ ys) =
     (case parse_lines re opts st xs of Inl e \<Rightarrow> Inl e | Inr st' \<Rightarrow> parse_lines re opts st' ys)"
  by (induction xs arbitrary: st) (auto split: sum.splits)

lemma end_of_banner_test_cong:
  "banner_end_lines st = banner_end_lines st' \<Longrightarrow>
   banner_end_contains st = banner_end_contains st' \<Longrightarrow>
   end_of_banner_test st l = end_of_banner_test st' l"
  by (simp add: end_of_banner_test_def)

lemma banner_line_continues:
  "\<not> end_of_banner_test st l \<Longrightarrow>
   banner_line st l = st \<lparr> temp_banner := (if l \<noteq> ''!'' then temp_banner st @ [l] else temp_banner st) \<rparr>"
  by (simp add: banner_line_def Let_def)

lemma in_banner_banner_line:
  "in_banner (banner_line st l) \<longleftrightarrow> in_banner st \<and> \<not> end_of_banner_test st l"
  by (simp add: banner_line_def Let_def split: prod.splits)

lemma parse_lines_in_banner:
  "in_banner st \<Longrightarrow> \<forall>l\<in>set rest. \<not> end_of_banner_test st l \<Longrightarrow>
   \<exists>st'. parse_lines re opts st rest = Inr st' \<and> in_banner st' \<and> tree st' = tree st"
proof (induction rest arbitrary: st)
  case Nil
  then show ?case by simp
next
  case (Cons l rest)
  let ?st1 = "banner_line st l"
  from Cons.prems have n: "\<not> end_of_banner_test st l" by simp
  have 1: "process_line re opts st l = Inr ?st1"
    using Cons.prems(1) by (simp add: process_line_def)
  have "in_banner ?st1" using Cons.prems(1) n by (simp add: in_banner_banner_line)
  moreover have "\<forall>l\<in>set rest. \<not> end_of_banner_test ?st1 l"
    using Cons.prems(2) end_of_banner_test_cong[of ?st1 st] by simp
  ultimately obtain st' where "parse_lines re opts ?st1 rest = Inr st'" "in_banner st'"
    "tree st' = tree ?st1"
    using Cons.IH[of ?st1] by blast
  then show ?case using 1 n by (simp add: banner_line_continues)
qed

lemma in_banner_adjust_indent [simp]:
  "in_banner (adjust_indent re exprs line st) = in_banner st"
  by (simp add: adjust_indent_def Let_def split: option.splits)

lemma in_banner_normal_line:
  "normal_line re opts st line = Inr st' \<Longrightarrow> in_banner st' = in_banner st"
  by (auto simp: normal_line_def Let_def split: option.splits sum.splits prod.splits if_splits)

lemma banner_end_contains_adjust_indent [simp]:
  "banner_end_contains (adjust_indent re exprs line st) = banner_end_contains st"
  by (simp add: adjust_indent_def Let_def split: option.splits)

lemma tree_banner_start [simp]: "tree (banner_start st line) = tree st"
  by (simp add: banner_start_def Let_def)

lemma in_banner_banner_start [simp]: "in_banner (banner_start st line)"
  by (simp add: banner_start_def Let_def)

lemma walk_up_error: "walk_up t i cs = Inl e \<Longrightarrow> e = AttributeError"
proof (induction t i cs rule: walk_up.induct)
  case (1 t i cs)
  from "1.prems" show ?case
    by (subst (asm) walk_up.simps)
       (auto simp: parent_def split: option.splits if_splits sum.splits dest: "1.IH")
qed

lemma normal_line_error:
  "normal_line re opts st line = Inl (e, t) \<Longrightarrow> e \<noteq> AssertionError"
  by (auto simp: normal_line_def place_def Let_def
      split: option.splits sum.splits prod.splits if_splits dest: walk_up_error)

lemma process_line_error:
  "process_line re opts st line = Inl (e, t) \<Longrightarrow> e \<noteq> AssertionError"
  by (auto simp: process_line_def split: if_splits dest: normal_line_error)

lemma parse_lines_error:
  "parse_lines re opts st lines = Inl (e, t) \<Longrightarrow> e \<noteq> AssertionError"
proof (induction lines arbitrary: st)
  case Nil
  then show ?case by simp
next
  case (Cons l lines)
  then show ?case
    by (cases "process_line re opts st l") (auto dest: process_line_error)
qed

lemma in_banner_decomposition:
  "parse_lines re opts st0 lines = Inr stf \<Longrightarrow> \<not> in_banner st0 \<Longrightarrow> in_banner stf \<Longrightarrow>
   \<exists>pre line rest st. lines = pre @ line # rest \<and> parse_lines re opts st0 pre = Inr st \<and>
     \<not> in_banner st \<and> startswith line ''banner '' \<and>
     (\<forall>l\<in>set rest. \<not> end_of_banner_test (banner_start st line) l) \<and>
     tree stf = tree st \<and>
     banner_end_lines stf = banner_end_lines (banner_start st line) \<and>
     banner_end_contains stf = banner_end_contains (banner_start st line)"
proof (induction lines arbitrary: stf rule: rev_induct)
  case Nil
  then show ?case by simp
next
  case (snoc x xs)
  from snoc.prems(1) obtain s1 where xs: "parse_lines re opts st0 xs = Inr s1"
    and x: "process_line re opts s1 x = Inr stf"
    by (auto simp: parse_lines_append split: sum.splits)
  show ?case
  proof (cases "in_banner s1")
    case True
    with x have stf: "stf = banner_line s1 x" by (simp add: process_line_def)
    with snoc.prems(3) have n: "\<not> end_of_banner_test s1 x"
      by (simp add: in_banner_banner_line)
    from snoc.IH[OF xs snoc.prems(2) True] obtain pre line rest st where
      d: "xs = pre @ line # rest" "parse_lines re opts st0 pre = Inr st"
        "\<not> in_banner st" "startswith line ''banner ''"
        "\<forall>l\<in>set rest. \<not> end_of_banner_test (banner_start st line) l"
        "tree s1 = tree st"
        "banner_end_lines s1 = banner_end_lines (banner_start st line)"
        "banner_end_contains s1 = banner_end_contains (banner_start st line)"
      by blast
    have "\<not> end_of_banner_test (banner_start st line) x"
      using n end_of_banner_test_cong[OF d(7) d(8)] by simp
    with d stf n show ?thesis
      by (intro exI[of _ pre] exI[of _ line] exI[of _ "rest @ [x]"] exI[of _ st])
         (simp add: banner_line_continues)
  next
    case False
    have sw: "startswith x ''banner ''"
    proof (rule ccontr)
      assume "\<not> startswith x ''banner ''"
      with False x have "normal_line re opts s1 x = Inr stf" by (simp add: process_line_def)
      from in_banner_normal_line[OF this] False snoc.prems(3) show False by simp
    qed
    with False x have "stf = banner_start s1 x" by (simp add: process_line_def)
    with xs False sw show ?thesis
      by (intro exI[of _ xs] exI[of _ x] exI[of _ "[]"] exI[of _ s1]) simp
  qed
qed

lemma in_banner_init [simp]: "\<not> in_banner (init_state self)"
  by (simp add: init_state_def)






text \<open>
  C3. \<^verbatim>\<open>load_from_string\<close> raises \<^verbatim>\<open>AssertionError\<close> exactly when the text ends inside
  a banner: some line read in normal mode opens a banner and no later line passes the
  terminator test of that banner. The tree is then the one built before the banner was
  opened; nothing is added for the unterminated banner.
\<close>

theorem unterminated_banner_fails:
  "load_from_string re opts self config_text = Inl (AssertionError, t) \<longleftrightarrow>
   (\<exists>subs pre line rest st.
      full_text_sub opts = Some subs \<and>
      splitlines (apply_subs re subs config_text) = pre @ line # rest \<and>
      parse_lines re opts (init_state self) pre = Inr st \<and> \<not> in_banner st \<and>
      startswith line ''banner '' \<and>
      (\<forall>l\<in>set rest. \<not> end_of_banner_test (banner_start st line) l) \<and>
      t = tree st)"
proof
  assume fail: "load_from_string re opts self config_text = Inl (AssertionError, t)"
  then obtain subs where subs: "full_text_sub opts = Some subs"
    by (auto simp: load_from_string_def split: option.splits)
  let ?lines = "splitlines (apply_subs re subs config_text)"
  from fail subs obtain stf where stf: "parse_lines re opts (init_state self) ?lines = Inr stf"
    "in_banner stf" "t = tree stf"
    by (auto simp: load_from_string_def split: sum.splits if_splits dest: parse_lines_error)
  from in_banner_decomposition[OF stf(1) in_banner_init stf(2)] subs stf(3)
  show "\<exists>subs pre line rest st.
      full_text_sub opts = Some subs \<and>
      splitlines (apply_subs re subs config_text) = pre @ line # rest \<and>
      parse_lines re opts (init_state self) pre = Inr st \<and> \<not> in_banner st \<and>
      startswith line ''banner '' \<and>
      (\<forall>l\<in>set rest. \<not> end_of_banner_test (banner_start st line) l) \<and>
      t = tree st"
    by auto
next
  assume "\<exists>subs pre line rest st.
      full_text_sub opts = Some subs \<and>
      splitlines (apply_subs re subs config_text) = pre @ line # rest \<and>
      parse_lines re opts (init_state self) pre = Inr st \<and> \<not> in_banner st \<and>
      startswith line ''banner '' \<and>
      (\<forall>l\<in>set rest. \<not> end_of_banner_test (banner_start st line) l) \<and>
      t = tree st"
  then obtain subs pre line rest st where
    d: "full_text_sub opts = Some subs"
      "splitlines (apply_subs re subs config_text) = pre @ line # rest"
      "parse_lines re opts (init_state self) pre = Inr st" "\<not> in_banner st"
      "startswith line ''banner ''"
      "\<forall>l\<in>set rest. \<not> end_of_banner_test (banner_start st line) l"
      "t = tree st"
    by blast
  have 1: "process_line re opts st line = Inr (banner_start st line)"
    using d(4,5) by (simp add: process_line_def)
  from parse_lines_in_banner[OF in_banner_banner_start d(6), of re opts]
  obtain st' where "parse_lines re opts (banner_start st line) rest = Inr st'" "in_banner st'"
    "tree st' = tree st"
    by auto
  with d 1 show "load_from_string re opts self config_text = Inl (AssertionError, t)"
    by (simp add: load_from_string_def parse_lines_append)
qed

theorem unterminated_banner_fails_witness:
  "load_from_string re_plain empty_options empty_root unterminated_example =
     Inl (AssertionError, Node [] {||} {||} False default_order_weight (Some (- 1)) [])"
proof -
  have "\<exists>subs pre line rest st.
      full_text_sub empty_options = Some subs \<and>
      splitlines (apply_subs re_plain subs unterminated_example) = pre @ line # rest \<and>
      parse_lines re_plain empty_options (init_state empty_root) pre = Inr st \<and>
      \<not> in_banner st \<and> startswith line ''banner '' \<and>
      (\<forall>l\<in>set rest. \<not> end_of_banner_test (banner_start st line) l) \<and>
      Node [] {||} {||} False default_order_weight (Some (- 1)) [] = tree st"
    by (rule exI[of _ "[]"], rule exI[of _ "[]"], rule exI[of _ "''banner motd ^C''"],
        rule exI[of _ "[''Welcome to the device'']"], rule exI[of _ "init_state empty_root"])
       (simp add: empty_options_def unterminated_example_def splitlines_def is_linebreak_def
          startswith_def init_state_def empty_root_def end_of_banner_test_def banner_start_def
          split_def is_space_def set_real_indent_level_def)
  then show ?thesis by (simp only: unterminated_banner_fails)
qed

text \<open>
  C8 (as amended). The three-line banner example parses into exactly one node of depth
  1 and no deeper node; its text is the opening line, the interior line and the
  terminator line joined with newlines.
\<close>

theorem banner_example_parse:
  "load_from_string re empty_options empty_root banner_example =
   Inr (Node [] {||} {||} False default_order_weight (Some (- 1))
       [Node ''banner motd ^C\<newline>Welcome to the device\<newline>^C'' {||} {||} False
          default_order_weight (Some 0) []])"
  by code_simp

text \<open>
  C8 as stated fails: the text of the node is not the interior line alone.
\<close>

theorem banner_example_counterexample:
  "map node_text (children (projr
      (load_from_string re_plain empty_options empty_root banner_example))) \<noteq>
   [''Welcome to the device'']"
  by code_simp




text \<open>
  C10. In a state the parser reaches inside a banner, the line \<^verbatim>\<open>!\<close> ends the banner and
  is left out of the text of the banner node, and each of the lines \<^verbatim>\<open>EOF\<close> and \<^verbatim>\<open>%\<close>
  ends the banner and is the last line of that text.
\<close>

theorem banner_terminators:
  assumes "parse_lines re opts (init_state self) lines = Inr st" and "in_banner st"
  shows "(\<exists>st'. process_line re opts st ''!'' = Inr st' \<and> \<not> in_banner st' \<and>
            children (tree st') = children (tree st) @
              [Node (join ''\<newline>'' (temp_banner st)) {||} {||} False default_order_weight
                 (Some 0) []]) \<and>
         (\<exists>st'. process_line re opts st ''EOF'' = Inr st' \<and> \<not> in_banner st' \<and>
            children (tree st') = children (tree st) @
              [Node (join ''\<newline>'' (temp_banner st @ [''EOF''])) {||} {||} False
                 default_order_weight (Some 0) []]) \<and>
         (\<exists>st'. process_line re opts st ''%'' = Inr st' \<and> \<not> in_banner st' \<and>
            children (tree st') = children (tree st) @
              [Node (join ''\<newline>'' (temp_banner st @ [''%''])) {||} {||} False
                 default_order_weight (Some 0) []])"
proof -
  from universal_terminators[OF assms(1)]
  have t: "end_of_banner_test st ''!''" "end_of_banner_test st ''EOF''" "end_of_banner_test st ''%''"
    by (auto simp: end_of_banner_test_def)
  show ?thesis
    using assms(2) banner_line_terminates[OF t(1)] banner_line_terminates[OF t(2)]
      banner_line_terminates[OF t(3)]
    by (simp add: process_line_def)
qed

theorem banner_terminators_witness:
  "(\<exists>st'. process_line re_plain empty_options
             (banner_start (init_state empty_root) ''banner motd ^C'') ''!'' = Inr st' \<and>
          \<not> in_banner st' \<and>
          children (tree st') =
            [Node ''banner motd ^C'' {||} {||} False default_order_weight (Some 0) []]) \<and>
   (\<exists>st'. process_line re_plain empty_options
             (banner_start (init_state empty_root) ''banner motd ^C'') ''EOF'' = Inr st' \<and>
          \<not> in_banner st' \<and>
          children (tree st') =
            [Node ''banner motd ^C\<newline>EOF'' {||} {||} False default_order_weight (Some 0) []]) \<and>
   (\<exists>st'. process_line re_plain empty_options
             (banner_start (init_state empty_root) ''banner motd ^C'') ''%'' = Inr st' \<and>
          \<not> in_banner st' \<and>
          children (tree st') =
            [Node ''banner motd ^C\<newline>%'' {||} {||} False default_order_weight (Some 0) []])"
proof -
  let ?st = "banner_start (init_state empty_root) ''banner motd ^C''"
  have h1: "parse_lines re_plain empty_options (init_state empty_root) [''banner motd ^C''] =
      Inr ?st"
    by (simp add: process_line_def startswith_def)
  have h2: "in_banner ?st" by simp
  have tb: "temp_banner ?st = [''banner motd ^C'']"
    by (simp add: banner_start_def Let_def init_state_def)
  have ch: "children (tree (init_state empty_root)) = []"
    by (simp add: init_state_def empty_root_def set_real_indent_level_def)
  from banner_terminators[OF h1 h2] show ?thesis
    by (simp add: tb ch)
qed

section \<open>Properties of the access-list pass\<close>

text \<open>
  C7. \<^verbatim>\<open>_remove_acl_remarks\<close> on an access list with two consecutive remarks: the loop
  removes the first remark while it iterates over the list, the second remark moves to
  the position just visited and is never tested, and it stays in the tree.
\<close>

theorem remove_acl_remarks_skips:
  "remove_acl_remarks acl_example =
     Node [] {||} {||} False default_order_weight None
       [Node ''ip access-list extended TEST'' {||} {||} False default_order_weight None
          [Node ''remark second'' {||} {||} False default_order_weight None [],
           Node ''permit ip any any'' {||} {||} False default_order_weight None []]]"
  by code_simp

section \<open>Properties of the filtered traversal\<close>


lemma lineage_snoc: "p \<noteq> [] \<Longrightarrow> lineage p = map (\<lambda>k. take k p) [1..<length p] @ [p]"
  by (cases p) (simp_all add: lineage_def)





section \<open>Properties of sectional exiting\<close>

lemma find_text_None: "find_text txt cs = None \<longleftrightarrow> (\<forall>c \<in> set cs. node_text c \<noteq> txt)"
  by (induction cs) auto

lemma set_children_set_children [simp]: "set_children xs (set_children ys n) = set_children xs n"
  by (simp add: set_children_def)

lemma fields_set_children [simp]:
  "node_text (set_children cs n) = node_text n"
  "order_weight (set_children cs n) = order_weight n"
  by (simp_all add: set_children_def)

lemma exit_rule_step_children:
  "exit_rule_step re texts n rule =
     set_children
       (if lineage_matches re (exit_lineage rule) texts
        then filter (\<lambda>c. node_text c \<noteq> exit_text rule) (children n) @ [exit_leaf (exit_text rule)]
        else children n) n"
proof (cases "lineage_matches re (exit_lineage rule) texts")
  case False
  then show ?thesis by (simp add: exit_rule_step_def)
next
  case True
  let ?e = "exit_text rule"
  let ?cs = "filter (\<lambda>c. node_text c \<noteq> ?e) (children n)"
  let ?c1 = "if contains_text n ?e then del_child_by_text ?e n else n"
  have c1: "?c1 = set_children ?cs n"
  proof (cases "contains_text n ?e")
    case True
    then show ?thesis by (simp add: del_child_by_text_def)
  next
    case False
    then have "?cs = children n" by (auto simp: contains_text_def filter_id_conv)
    with False show ?thesis by simp
  qed
  have f: "find_text ?e ?cs = None" by (simp add: find_text_None)
  have "add_child (set_children ?cs n) [] ?e False =
        (append_child (new_node ?e) (set_children ?cs n), [length ?cs])"
    using f by (simp add: add_child_def children_of_def)
  moreover have "modify (assign_order_weight 999) [length ?cs]
        (append_child (new_node ?e) (set_children ?cs n)) =
      set_children (?cs @ [exit_leaf ?e]) n"
    by (simp add: append_child_def assign_order_weight_def new_node_def exit_leaf_def)
  ultimately show ?thesis using True c1 by (simp add: exit_rule_step_def)
qed

lemma apply_exit_rules_children:
  "apply_exit_rules re rules texts n = set_children (exit_children re rules texts (children n)) n"
  unfolding apply_exit_rules_def
proof (induction rules arbitrary: n)
  case Nil
  then show ?case by simp
next
  case (Cons rule rules)
  let ?n1 = "exit_rule_step re texts n rule"
  have ch: "children ?n1 =
      (if lineage_matches re (exit_lineage rule) texts
       then filter (\<lambda>c. node_text c \<noteq> exit_text rule) (children n) @ [exit_leaf (exit_text rule)]
       else children n)"
    by (simp add: exit_rule_step_children)
  have sc: "set_children xs ?n1 = set_children xs n" for xs
    by (simp add: exit_rule_step_children)
  have "foldl (exit_rule_step re texts) n (rule # rules) =
        foldl (exit_rule_step re texts) ?n1 rules"
    by simp
  also have "\<dots> = set_children (exit_children re rules texts (children ?n1)) ?n1"
    by (rule Cons.IH)
  also have "\<dots> = set_children (exit_children re (rule # rules) texts (children n)) n"
    by (simp only: sc ch exit_children.simps)
  finally show ?case .
qed

lemma exit_children_closed:
  "exit_children re rules texts cs =
     filter (\<lambda>c. node_text c \<notin> exit_texts re rules texts) cs @ exit_children re rules texts []"
proof (induction rules arbitrary: cs)
  case Nil
  then show ?case by (simp add: exit_texts_def)
next
  case (Cons rule rules)
  show ?case
  proof (cases "lineage_matches re (exit_lineage rule) texts")
    case False
    then have "exit_texts re (rule # rules) texts = exit_texts re rules texts"
      by (simp add: exit_texts_def)
    with False Cons.IH[of cs] show ?thesis by simp
  next
    case True
    let ?e = "exit_text rule"
    have X: "exit_texts re (rule # rules) texts = insert ?e (exit_texts re rules texts)"
      using True by (simp add: exit_texts_def)
    have "exit_children re (rule # rules) texts cs =
          exit_children re rules texts (filter (\<lambda>c. node_text c \<noteq> ?e) cs @ [exit_leaf ?e])"
      using True by simp
    also have "\<dots> = filter (\<lambda>c. node_text c \<notin> exit_texts re rules texts)
                      (filter (\<lambda>c. node_text c \<noteq> ?e) cs @ [exit_leaf ?e]) @
                    exit_children re rules texts []"
      by (rule Cons.IH)
    also have "\<dots> = filter (\<lambda>c. node_text c \<notin> exit_texts re (rule # rules) texts) cs @
                    (filter (\<lambda>c. node_text c \<notin> exit_texts re rules texts) [exit_leaf ?e] @
                     exit_children re rules texts [])"
      by (simp add: X conj_commute)
    also have "filter (\<lambda>c. node_text c \<notin> exit_texts re rules texts) [exit_leaf ?e] @
                 exit_children re rules texts [] =
               exit_children re rules texts ([] @ [exit_leaf ?e])"
      using Cons.IH[of "[exit_leaf ?e]"] by simp
    also have "\<dots> = exit_children re (rule # rules) texts []"
      using True by simp
    finally show ?thesis .
  qed
qed

lemma exit_children_leaves:
  "c \<in> set (exit_children re rules texts []) \<Longrightarrow>
   node_text c \<in> exit_texts re rules texts \<and> c = exit_leaf (node_text c)"
proof (induction rules arbitrary: c)
  case Nil
  then show ?case by simp
next
  case (Cons rule rules)
  show ?case
  proof (cases "lineage_matches re (exit_lineage rule) texts")
    case False
    with Cons show ?thesis by (simp add: exit_texts_def)
  next
    case True
    let ?e = "exit_text rule"
    from Cons.prems True have "c \<in> set (exit_children re rules texts [exit_leaf ?e])" by simp
    then have "c \<in> set (filter (\<lambda>c. node_text c \<notin> exit_texts re rules texts) [exit_leaf ?e]) \<or>
               c \<in> set (exit_children re rules texts [])"
      by (subst (asm) exit_children_closed) auto
    then show ?thesis
    proof
      assume "c \<in> set (filter (\<lambda>c. node_text c \<notin> exit_texts re rules texts) [exit_leaf ?e])"
      then have "c = exit_leaf ?e" by (auto split: if_splits)
      with True show ?thesis by (simp add: exit_texts_def exit_leaf_def)
    next
      assume "c \<in> set (exit_children re rules texts [])"
      from Cons.IH[OF this] show ?thesis by (auto simp: exit_texts_def)
    qed
  qed
qed

lemma exit_children_one:
  "e \<in> exit_texts re rules texts \<Longrightarrow>
   filter (\<lambda>c. node_text c = e) (exit_children re rules texts []) = [exit_leaf e]"
proof (induction rules)
  case Nil
  then show ?case by (simp add: exit_texts_def)
next
  case (Cons rule rules)
  show ?case
  proof (cases "lineage_matches re (exit_lineage rule) texts")
    case False
    with Cons show ?thesis by (simp add: exit_texts_def)
  next
    case True
    let ?r = "exit_text rule"
    have sp: "exit_children re (rule # rules) texts [] =
        filter (\<lambda>c. node_text c \<notin> exit_texts re rules texts) [exit_leaf ?r] @
        exit_children re rules texts []"
      using True exit_children_closed[of re rules texts "[exit_leaf ?r]"] by simp
    show ?thesis
    proof (cases "e \<in> exit_texts re rules texts")
      case True
      have "filter (\<lambda>c. node_text c = e)
              (filter (\<lambda>c. node_text c \<notin> exit_texts re rules texts) [exit_leaf ?r]) = []"
        using True by (auto simp: exit_leaf_def)
      with Cons.IH[OF True] show ?thesis by (simp only: sp filter_append append_Nil)
    next
      case False
      with Cons.prems \<open>lineage_matches re (exit_lineage rule) texts\<close>
      have e: "e = ?r" by (auto simp: exit_texts_def)
      have "filter (\<lambda>c. node_text c = e) (exit_children re rules texts []) = []"
        using False by (auto simp: filter_empty_conv dest: exit_children_leaves)
      moreover have "filter (\<lambda>c. node_text c = e)
              (filter (\<lambda>c. node_text c \<notin> exit_texts re rules texts) [exit_leaf ?r]) =
              [exit_leaf e]"
        using False e by (simp add: exit_leaf_def)
      ultimately show ?thesis by (simp only: sp filter_append append_Nil2)
    qed
  qed
qed

lemma exit_node_unfold:
  "exit_node re rules lin n =
     set_children
       (map (exit_node re rules (lin @ [node_text n]))
          (filter (\<lambda>c. node_text c \<notin> exit_texts re rules (lin @ [node_text n])) (children n) @
           exit_children re rules (lin @ [node_text n]) []))
       n"
  by (subst exit_node.simps, subst exit_children_closed[symmetric])
     (simp add: Let_def apply_exit_rules_children)

lemma fields_exit_node [simp]:
  "node_text (exit_node re rules lin n) = node_text n"
  "order_weight (exit_node re rules lin n) = order_weight n"
  by (subst exit_node_unfold, simp)+

lemma exits_ok_iff:
  "exits_ok re rules lin n \<longleftrightarrow>
     ((\<forall>rule \<in> set rules. lineage_matches re (exit_lineage rule) (lin @ [node_text n]) \<longrightarrow>
         (\<exists>c. filter (\<lambda>c. node_text c = exit_text rule) (children n) = [c] \<and>
              order_weight c = 999)) \<and>
      (\<forall>c \<in> set (children n). exits_ok re rules (lin @ [node_text n]) c))"
  by (cases n) simp

lemma filter_map_text:
  assumes "\<And>c. node_text (f c) = node_text c"
  shows "filter (\<lambda>c. node_text c = e) (map f cs) = map f (filter (\<lambda>c. node_text c = e) cs)"
  using assms by (induction cs) auto

lemma exits_ok_exit_node: "exits_ok re rules lin (exit_node re rules lin n)"
proof (induction re rules lin n rule: exit_node.induct)
  case (1 re rules lin n)
  let ?texts = "lin @ [node_text n]"
  let ?keep = "filter (\<lambda>c. node_text c \<notin> exit_texts re rules ?texts) (children n)"
  let ?new = "exit_children re rules ?texts []"
  let ?E = "exit_node re rules ?texts"
  have ch: "children (exit_node re rules lin n) = map ?E (?keep @ ?new)"
    by (subst exit_node_unfold) simp
  have n1: "children (apply_exit_rules re rules ?texts n) = ?keep @ ?new"
    by (simp add: apply_exit_rules_children exit_children_closed[symmetric])
  have one: "\<exists>c. filter (\<lambda>c. node_text c = exit_text rule) (map ?E (?keep @ ?new)) = [c] \<and>
      order_weight c = 999"
    if rule: "rule \<in> set rules" "lineage_matches re (exit_lineage rule) ?texts" for rule
  proof -
    let ?e = "exit_text rule"
    from rule have e: "?e \<in> exit_texts re rules ?texts" by (auto simp: exit_texts_def)
    then have "filter (\<lambda>c. node_text c = ?e) ?keep = []"
      by (auto simp: filter_empty_conv)
    with exit_children_one[OF e]
    have "filter (\<lambda>c. node_text c = ?e) (?keep @ ?new) = [exit_leaf ?e]" by simp
    then have "filter (\<lambda>c. node_text c = ?e) (map ?E (?keep @ ?new)) = [?E (exit_leaf ?e)]"
      by (simp add: filter_map_text del: map_append filter_append)
    moreover have "order_weight (?E (exit_leaf ?e)) = 999" by (simp add: exit_leaf_def)
    ultimately show ?thesis by blast
  qed
  have rec: "exits_ok re rules ?texts c" if "c \<in> set (map ?E (?keep @ ?new))" for c
  proof -
    from that obtain c0 where "c0 \<in> set (?keep @ ?new)" "c = ?E c0" by auto
    with "1.IH"[OF refl refl, of c0] n1 show ?thesis by simp
  qed
  show ?case
    by (subst exits_ok_iff) (use one rec in \<open>auto simp: ch simp del: map_append filter_append\<close>)
qed

lemma exit_node_idem:
  "exit_node re rules lin (exit_node re rules lin n) = exit_node re rules lin n"
proof (induction re rules lin n rule: exit_node.induct)
  case (1 re rules lin n)
  let ?texts = "lin @ [node_text n]"
  let ?X = "exit_texts re rules ?texts"
  let ?keep = "filter (\<lambda>c. node_text c \<notin> ?X) (children n)"
  let ?new = "exit_children re rules ?texts []"
  let ?E = "exit_node re rules ?texts"
  let ?n' = "exit_node re rules lin n"
  have n1: "children (apply_exit_rules re rules ?texts n) = ?keep @ ?new"
    by (simp add: apply_exit_rules_children exit_children_closed[symmetric])
  have n': "?n' = set_children (map ?E ?keep @ map ?E ?new) n"
    by (subst exit_node_unfold) simp
  have keep: "filter (\<lambda>c. node_text c \<notin> ?X) (map ?E ?keep @ map ?E ?new) = map ?E ?keep"
  proof -
    have "filter (\<lambda>c. node_text c \<notin> ?X) (map ?E ?keep) = map ?E ?keep"
      by (auto simp: filter_id_conv)
    moreover have "filter (\<lambda>c. node_text c \<notin> ?X) (map ?E ?new) = []"
      by (auto simp: filter_empty_conv dest: exit_children_leaves)
    ultimately show ?thesis by simp
  qed
  have idem: "map ?E (map ?E ?keep) = map ?E ?keep"
  proof -
    have "?E (?E c) = ?E c" if "c \<in> set ?keep" for c
      using "1.IH"[OF refl refl, of c] that n1 by simp
    then show ?thesis by simp
  qed
  have "exit_node re rules lin ?n' =
        set_children (map ?E (filter (\<lambda>c. node_text c \<notin> ?X) (children ?n') @ ?new)) ?n'"
    by (subst exit_node_unfold) simp
  also have "\<dots> = set_children (map ?E (map ?E ?keep) @ map ?E ?new) n"
    by (simp add: n' keep del: filter_append)
  also have "\<dots> = ?n'"
    by (simp only: idem n')
  finally show ?case .
qed

text \<open>
  C6. With the rules present, \<^verbatim>\<open>add_sectional_exiting\<close> returns a tree in which every node
  that matches a rule has exactly one child with the exit text of the rule, of order
  weight 999; a second call on that tree returns the same tree, so there is still one
  such child and not two.
\<close>

theorem sectional_exiting_idempotent:
  assumes "sectional_exiting opts = Some rules"
  shows "\<exists>T'. add_sectional_exiting re opts T = Inr T' \<and>
           (\<forall>c \<in> set (children T'). exits_ok re rules [] c) \<and>
           add_sectional_exiting re opts T' = Inr T'"
proof (cases "children T = []")
  case True
  then show ?thesis by (simp add: add_sectional_exiting_def)
next
  case False
  let ?T' = "set_children (map (exit_node re rules []) (children T)) T"
  have 1: "add_sectional_exiting re opts T = Inr ?T'"
    using False assms by (simp add: add_sectional_exiting_def)
  have 2: "\<forall>c \<in> set (children ?T'). exits_ok re rules [] c"
    by (auto simp: exits_ok_exit_node)
  have "add_sectional_exiting re opts ?T' =
        Inr (set_children (map (exit_node re rules []) (map (exit_node re rules []) (children T))) T)"
    using False assms by (simp add: add_sectional_exiting_def)
  then have 3: "add_sectional_exiting re opts ?T' = Inr ?T'"
    by (simp add: exit_node_idem comp_def)
  from 1 2 3 show ?thesis by blast
qed

theorem sectional_exiting_idempotent_witness:
  "add_sectional_exiting re_plain
     (empty_options \<lparr> sectional_exiting := Some interface_exit_rules \<rparr>) interface_tree =
     Inr (Node [] {||} {||} False default_order_weight None
       [Node ''interface Vlan2'' {||} {||} False default_order_weight None
          [Node ''shutdown'' {||} {||} False default_order_weight None [],
           Node ''exit'' {||} {||} False 999 None []],
        Node ''hostname r1'' {||} {||} False default_order_weight None []]) \<and>
   add_sectional_exiting re_plain
     (empty_options \<lparr> sectional_exiting := Some interface_exit_rules \<rparr>)
     (Node [] {||} {||} False default_order_weight None
       [Node ''interface Vlan2'' {||} {||} False default_order_weight None
          [Node ''shutdown'' {||} {||} False default_order_weight None [],
           Node ''exit'' {||} {||} False 999 None []],
        Node ''hostname r1'' {||} {||} False default_order_weight None []]) =
     Inr (Node [] {||} {||} False default_order_weight None
       [Node ''interface Vlan2'' {||} {||} False default_order_weight None
          [Node ''shutdown'' {||} {||} False default_order_weight None [],
           Node ''exit'' {||} {||} False 999 None []],
        Node ''hostname r1'' {||} {||} False default_order_weight None []])"
proof -
  have e: "add_sectional_exiting re_plain
     (empty_options \<lparr> sectional_exiting := Some interface_exit_rules \<rparr>) interface_tree =
     Inr (Node [] {||} {||} False default_order_weight None
       [Node ''interface Vlan2'' {||} {||} False default_order_weight None
          [Node ''shutdown'' {||} {||} False default_order_weight None [],
           Node ''exit'' {||} {||} False 999 None []],
        Node ''hostname r1'' {||} {||} False default_order_weight None []])"
    by code_simp
  have "sectional_exiting (empty_options \<lparr> sectional_exiting := Some interface_exit_rules \<rparr>) =
      Some interface_exit_rules"
    by simp
  from sectional_exiting_idempotent[OF this, of re_plain interface_tree] e
  show ?thesis by auto
qed

end
